theory Spec2Isabelle
  imports Complex_Main "HOL-Library.Char_ord" "HOL-Library.AList" "HOL-Library.Sublist"
    "HOL-Library.Log_Nat"
begin

section \<open>Slider synchronisation of Glassine Paper CSS\<close>

text \<open>
  The slider script has two functions: \<open>onSliderInput\<close>, the handler that writes the
  progress ratio of a range input into the custom property \<open>--slider-progress\<close> of the
  enclosing \<open>.slider\<close> element and marks the options of its datalist that lie below the
  current value with the class \<open>lower\<close>, and \<open>bodyOnLoad\<close>, which attaches the handler to
  every slider of the document and runs it once.

  The script works on the browser's document. The document is modelled as a tree of
  elements, an element is addressed by its path from the root (the list of child
  indices), and every mutation of the script returns the updated tree. A JavaScript
  exception is the \<open>Inl\<close> branch of a sum.
\<close>

subsection \<open>Numbers\<close>

text \<open>
  A JavaScript number is an IEEE 754 double: \<open>NaN\<close>, an infinity or a finite value. A
  finite value is kept as the rational it denotes, and every operation rounds its exact
  result to the nearest double, ties to even, and overflows to an infinity (\<open>rnd\<close>
  below).

  The sign of zero is not kept. The script cannot tell the two zeros apart: \<open>x || 0\<close>
  takes both to \<open>0\<close>, \<open><\<close> and \<open>>\<close> compare them as equal, the template literal prints
  both as \<open>0\<close>, and the only divisor is \<open>max - min\<close> under \<open>max > min\<close>, which is not
  zero.
\<close>

datatype jsnum = NaN | NInf | Fin rat | PInf

datatype jsval = Undefined | Null | Str string

text \<open>Powers of two with an integer exponent.\<close>

definition pow2 :: "int \<Rightarrow> rat" where
  "pow2 k = (if 0 \<le> k then 2 ^ nat k else 1 / 2 ^ nat (- k))"

text \<open>The binary exponent of a positive rational: \<open>2 ^ expo q \<le> q < 2 ^ (expo q + 1)\<close>.\<close>

definition expo :: "rat \<Rightarrow> int" where
  "expo q =
     (case quotient_of q of
        (a, b) \<Rightarrow> (let k = bitlen a - bitlen b in if pow2 k \<le> q then k else k - 1))"

text \<open>The nearest integer, a tie going to the even one.\<close>

definition round_even :: "rat \<Rightarrow> int" where
  "round_even x =
     (let f = \<lfloor>x\<rfloor>; r = x - of_int f
      in if r < 1 / 2 then f else if 1 / 2 < r then f + 1 else if even f then f else f + 1)"

definition inf_of_sign :: "rat \<Rightarrow> jsnum" where
  "inf_of_sign s = (if 0 < s then PInf else if s < 0 then NInf else NaN)"

text \<open>
  Rounding to a double. A double has 53 significant bits and a binary exponent from
  \<open>-1022\<close> (below it the values are subnormal, in steps of \<open>2 ^ -1074\<close>) to \<open>1023\<close>; a
  value that rounds to \<open>2 ^ 1024\<close> or more is an infinity. \<open>rnd_mag\<close> is the rounding of a
  positive value with no bound on the exponent.
\<close>

definition rnd_mag :: "rat \<Rightarrow> rat" where
  "rnd_mag q =
     (let u = pow2 (max (expo q) (- 1022) - 52) in of_int (round_even (q / u)) * u)"

definition rnd :: "rat \<Rightarrow> jsnum" where
  "rnd q =
     (if q = 0 then Fin 0
      else let e = max (expo \<bar>q\<bar>) (- 1022)
           in if 1024 \<le> e then inf_of_sign q
              else let u = pow2 (e - 52); n = round_even (\<bar>q\<bar> / u)
                   in if e = 1023 \<and> 2 ^ 53 \<le> n then inf_of_sign q
                      else Fin (sgn q * of_int n * u))"

fun js_neg :: "jsnum \<Rightarrow> jsnum" where
  "js_neg NaN = NaN"
| "js_neg NInf = PInf"
| "js_neg (Fin x) = Fin (- x)"
| "js_neg PInf = NInf"

definition js_sign :: "jsnum \<Rightarrow> rat" where
  "js_sign a = (case a of NaN \<Rightarrow> 0 | NInf \<Rightarrow> - 1 | Fin x \<Rightarrow> sgn x | PInf \<Rightarrow> 1)"

text \<open>The relational operator \<open><\<close> on numbers: false as soon as one side is \<open>NaN\<close>.\<close>

fun js_less :: "jsnum \<Rightarrow> jsnum \<Rightarrow> bool" where
  "js_less NaN b = False"
| "js_less a NaN = False"
| "js_less (Fin x) (Fin y) = (x < y)"
| "js_less NInf NInf = False"
| "js_less NInf b = True"
| "js_less a NInf = False"
| "js_less PInf b = False"
| "js_less a PInf = True"

fun js_sub :: "jsnum \<Rightarrow> jsnum \<Rightarrow> jsnum" where
  "js_sub NaN b = NaN"
| "js_sub a NaN = NaN"
| "js_sub (Fin x) (Fin y) = rnd (x - y)"
| "js_sub PInf PInf = NaN"
| "js_sub NInf NInf = NaN"
| "js_sub PInf b = PInf"
| "js_sub NInf b = NInf"
| "js_sub a PInf = NInf"
| "js_sub a NInf = PInf"

definition js_mul :: "jsnum \<Rightarrow> jsnum \<Rightarrow> jsnum" where
  "js_mul a b =
     (if a = NaN \<or> b = NaN then NaN
      else case (a, b) of
             (Fin x, Fin y) \<Rightarrow> rnd (x * y)
           | _ \<Rightarrow> inf_of_sign (js_sign a * js_sign b))"

text \<open>Division; a zero divisor, which the script never has, is taken as the positive zero.\<close>

definition js_div :: "jsnum \<Rightarrow> jsnum \<Rightarrow> jsnum" where
  "js_div a b =
     (if a = NaN \<or> b = NaN then NaN
      else case (a, b) of
             (Fin x, Fin y) \<Rightarrow> if y = 0 then inf_of_sign (sgn x) else rnd (x / y)
           | (Fin x, _) \<Rightarrow> Fin 0
           | (_, Fin y) \<Rightarrow> inf_of_sign (js_sign a * (if y < 0 then - 1 else 1))
           | _ \<Rightarrow> NaN)"

text \<open>\<open>x || 0\<close> on a number: \<open>NaN\<close> and zero are falsy, every other number is kept.\<close>

definition or_zero :: "jsnum \<Rightarrow> jsnum" where
  "or_zero x = (if x = NaN \<or> x = Fin 0 then Fin 0 else x)"

subsection \<open>\<open>Number(...)\<close> of a string\<close>

text \<open>
  The conversion of a string follows the grammar of \<open>StringNumericLiteral\<close>: surrounding
  white space is dropped, the empty string is \<open>0\<close>, a decimal literal may carry a sign, a
  fraction and an exponent, \<open>Infinity\<close> may carry a sign, and the literals with the
  prefixes \<open>0x\<close>, \<open>0o\<close> and \<open>0b\<close> carry none; every other string is \<open>NaN\<close>. The
  mathematical value of a literal is rounded to a double. Strings are ASCII.
\<close>

definition is_ws :: "char \<Rightarrow> bool" where
  "is_ws c = (c \<in> set [CHR 0x09, CHR 0x0A, CHR 0x0B, CHR 0x0C, CHR 0x0D, CHR 0x20])"

definition trim :: "string \<Rightarrow> string" where
  "trim s = rev (dropWhile is_ws (rev (dropWhile is_ws s)))"

definition is_digit :: "char \<Rightarrow> bool" where
  "is_digit c = (CHR ''0'' \<le> c \<and> c \<le> CHR ''9'')"

definition digit_of :: "char \<Rightarrow> nat option" where
  "digit_of c =
     (if CHR ''0'' \<le> c \<and> c \<le> CHR ''9'' then Some (of_char c - 48)
      else if CHR ''a'' \<le> c \<and> c \<le> CHR ''f'' then Some (of_char c - 87)
      else if CHR ''A'' \<le> c \<and> c \<le> CHR ''F'' then Some (of_char c - 55)
      else None)"

fun digits_in :: "nat \<Rightarrow> string \<Rightarrow> nat \<Rightarrow> nat option" where
  "digits_in b [] acc = Some acc"
| "digits_in b (c # cs) acc =
     (case digit_of c of
        None \<Rightarrow> None
      | Some v \<Rightarrow> if v < b then digits_in b cs (b * acc + v) else None)"

definition radix_literal :: "nat \<Rightarrow> string \<Rightarrow> jsnum" where
  "radix_literal b ds =
     (if ds = [] then NaN
      else case digits_in b ds 0 of None \<Rightarrow> NaN | Some n \<Rightarrow> rnd (of_nat n))"

definition exponent_part :: "string \<Rightarrow> int option" where
  "exponent_part s =
     (case s of
        [] \<Rightarrow> Some 0
      | c # r \<Rightarrow>
          if c = CHR ''e'' \<or> c = CHR ''E'' then
            (let neg = (r \<noteq> [] \<and> hd r = CHR ''-'');
                 ds = (if r \<noteq> [] \<and> (hd r = CHR ''-'' \<or> hd r = CHR ''+'') then tl r else r)
             in if ds = [] then None
                else case digits_in 10 ds 0 of
                       None \<Rightarrow> None
                     | Some n \<Rightarrow> Some (if neg then - int n else int n))
          else None)"

definition unsigned_decimal :: "string \<Rightarrow> jsnum" where
  "unsigned_decimal s =
     (if s = ''Infinity'' then PInf
      else
        let ip = takeWhile is_digit s;
            r1 = dropWhile is_digit s;
            dot = (r1 \<noteq> [] \<and> hd r1 = CHR ''.'');
            fp = (if dot then takeWhile is_digit (tl r1) else []);
            r2 = (if dot then dropWhile is_digit (tl r1) else r1)
        in if ip = [] \<and> fp = [] then NaN
           else case (digits_in 10 (ip @ fp) 0, exponent_part r2) of
                  (Some m, Some e) \<Rightarrow>
                     rnd (of_nat m * (if e < 0 then 1 / 10 ^ nat (- e) else 10 ^ nat e)
                          / 10 ^ length fp)
                | _ \<Rightarrow> NaN)"

definition StringToNumber :: "string \<Rightarrow> jsnum" where
  "StringToNumber s =
     (let t = trim s in
      case t of
        [] \<Rightarrow> Fin 0
      | c # r \<Rightarrow>
          if c = CHR ''+'' then unsigned_decimal r
          else if c = CHR ''-'' then js_neg (unsigned_decimal r)
          else if c = CHR ''0'' \<and> r \<noteq> [] \<and> hd r \<in> set ''xX'' then radix_literal 16 (tl r)
          else if c = CHR ''0'' \<and> r \<noteq> [] \<and> hd r \<in> set ''oO'' then radix_literal 8 (tl r)
          else if c = CHR ''0'' \<and> r \<noteq> [] \<and> hd r \<in> set ''bB'' then radix_literal 2 (tl r)
          else unsigned_decimal t)"

text \<open>\<open>Number(v)\<close> for the values the script reads from the document.\<close>

fun Number :: "jsval \<Rightarrow> jsnum" where
  "Number Undefined = NaN"
| "Number Null = Fin 0"
| "Number (Str s) = StringToNumber s"

subsection \<open>The document\<close>

text \<open>
  The value of a style property is a string. The only strings the script builds are the
  template literals \<open>`${r}%`\<close>, the decimal form of the number \<open>r\<close> followed by a
  percent sign: such a string is \<open>Percent r\<close>, any other one is \<open>Raw\<close>.
\<close>

datatype css_value = Percent jsnum | Raw string

text \<open>
  An element has its tag name (in lower case), its content attributes other than
  \<open>class\<close> and \<open>style\<close>, its class list and its inline style. \<open>cur_value\<close> is what
  \<open>.value\<close> of an \<open>input\<close> element returns (the control's current value, which is not the
  \<open>value\<close> attribute once the user has moved the slider); \<open>text_content\<close> is the text of
  an \<open>option\<close> element, which its \<open>.value\<close> returns when it has no \<open>value\<close> attribute.
\<close>

record elem =
  tag :: string
  attrs :: "(string \<times> string) list"
  classes :: "string list"
  style :: "(string \<times> css_value) list"
  cur_value :: string
  text_content :: string

datatype node = Node elem "node list"

type_synonym path = "nat list"

fun root_elem :: "node \<Rightarrow> elem" where
  "root_elem (Node e ks) = e"

fun subtree :: "node \<Rightarrow> path \<Rightarrow> node option" where
  "subtree n [] = Some n"
| "subtree (Node e ks) (i # p) = (if i < length ks then subtree (ks ! i) p else None)"

definition elem_at :: "node \<Rightarrow> path \<Rightarrow> elem option" where
  "elem_at d p = map_option root_elem (subtree d p)"

text \<open>The mutation of one element; the tree keeps its shape.\<close>

fun upd :: "(elem \<Rightarrow> elem) \<Rightarrow> path \<Rightarrow> node \<Rightarrow> node" where
  "upd f [] (Node e ks) = Node (f e) ks"
| "upd f (i # p) (Node e ks) =
     (if i < length ks then Node e (ks[i := upd f p (ks ! i)]) else Node e ks)"

text \<open>All elements of a tree in tree order (preorder), the root first.\<close>

fun paths :: "node \<Rightarrow> path list"
  and paths_from :: "nat \<Rightarrow> node list \<Rightarrow> path list" where
  "paths (Node e ks) = [] # paths_from 0 ks"
| "paths_from i [] = []"
| "paths_from i (k # ks) = map ((#) i) (paths k) @ paths_from (Suc i) ks"

text \<open>The descendants of the element at \<open>b\<close>, in tree order; the element itself is not one.\<close>

definition descendants :: "node \<Rightarrow> path \<Rightarrow> path list" where
  "descendants d b = filter (strict_prefix b) (paths d)"

definition has_tag :: "node \<Rightarrow> string \<Rightarrow> path \<Rightarrow> bool" where
  "has_tag d tg p = (case elem_at d p of None \<Rightarrow> False | Some e \<Rightarrow> tag e = tg)"

definition has_class :: "node \<Rightarrow> string \<Rightarrow> path \<Rightarrow> bool" where
  "has_class d c p = (case elem_at d p of None \<Rightarrow> False | Some e \<Rightarrow> c \<in> set (classes e))"

definition has_id :: "node \<Rightarrow> string \<Rightarrow> path \<Rightarrow> bool" where
  "has_id d i p =
     (case elem_at d p of None \<Rightarrow> False | Some e \<Rightarrow> map_of (attrs e) ''id'' = Some i)"

text \<open>\<open>element.getElementsByTagName\<close>, \<open>element.getElementsByClassName\<close> and
  \<open>document.getElementsByClassName\<close>, which also sees the root element.\<close>

definition getElementsByTagName :: "node \<Rightarrow> path \<Rightarrow> string \<Rightarrow> path list" where
  "getElementsByTagName d b tg = filter (has_tag d tg) (descendants d b)"

definition getElementsByClassName :: "node \<Rightarrow> path \<Rightarrow> string \<Rightarrow> path list" where
  "getElementsByClassName d b c = filter (has_class d c) (descendants d b)"

definition document_getElementsByClassName :: "node \<Rightarrow> string \<Rightarrow> path list" where
  "document_getElementsByClassName d c = filter (has_class d c) (paths d)"

text \<open>\<open>collection.item(0)\<close> and \<open>collection[0]\<close>: \<open>None\<close> is \<open>null\<close>, or \<open>undefined\<close>.\<close>

definition item0 :: "path list \<Rightarrow> path option" where
  "item0 ps = (case ps of [] \<Rightarrow> None | p # _ \<Rightarrow> Some p)"

text \<open>\<open>element.closest('.c')\<close>: the element itself or its nearest ancestor of class \<open>c\<close>.\<close>

definition closest :: "node \<Rightarrow> path \<Rightarrow> string \<Rightarrow> path option" where
  "closest d t c = find (has_class d c) (rev (prefixes t))"

text \<open>
  \<open>input.list\<close>: the first element of the tree whose ID is the value of the \<open>list\<close>
  attribute, when that element is a \<open>datalist\<close>; an element other than an \<open>input\<close> has
  no such property. No element has the empty ID.
\<close>

definition list_of :: "node \<Rightarrow> path \<Rightarrow> path option" where
  "list_of d t =
     (case elem_at d t of
        None \<Rightarrow> None
      | Some e \<Rightarrow>
          if tag e = ''input'' then
            (case map_of (attrs e) ''list'' of
               None \<Rightarrow> None
             | Some i \<Rightarrow>
                 if i = [] then None
                 else (case find (has_id d i) (paths d) of
                         None \<Rightarrow> None
                       | Some p \<Rightarrow> if has_tag d ''datalist'' p then Some p else None))
          else None)"

text \<open>\<open>datalist.options\<close>: the \<open>option\<close> elements below the datalist.\<close>

definition options :: "node \<Rightarrow> path \<Rightarrow> path list" where
  "options d l = getElementsByTagName d l ''option''"

text \<open>
  The properties \<open>value\<close>, \<open>min\<close> and \<open>max\<close> of the event target: strings on an
  \<open>input\<close> element (\<open>min\<close> and \<open>max\<close> reflect the attribute, the empty string when it is
  absent), \<open>undefined\<close> on an element that has no such property.
\<close>

definition attr_or_empty :: "elem \<Rightarrow> string \<Rightarrow> string" where
  "attr_or_empty e n = (case map_of (attrs e) n of None \<Rightarrow> [] | Some v \<Rightarrow> v)"

definition prop_value :: "elem \<Rightarrow> jsval" where
  "prop_value e = (if tag e = ''input'' then Str (cur_value e) else Undefined)"

definition prop_min :: "elem \<Rightarrow> jsval" where
  "prop_min e = (if tag e = ''input'' then Str (attr_or_empty e ''min'') else Undefined)"

definition prop_max :: "elem \<Rightarrow> jsval" where
  "prop_max e = (if tag e = ''input'' then Str (attr_or_empty e ''max'') else Undefined)"

text \<open>\<open>option.value\<close> of an \<open>option\<close> element and \<open>element.getAttribute('value')\<close>.\<close>

definition option_value :: "elem \<Rightarrow> jsval" where
  "option_value e =
     (case map_of (attrs e) ''value'' of None \<Rightarrow> Str (text_content e) | Some v \<Rightarrow> Str v)"

definition getAttribute :: "elem \<Rightarrow> string \<Rightarrow> jsval" where
  "getAttribute e n = (case map_of (attrs e) n of None \<Rightarrow> Null | Some v \<Rightarrow> Str v)"

text \<open>\<open>classList.add\<close>, \<open>classList.remove\<close> and \<open>style.setProperty\<close>.\<close>

definition classList_add :: "string \<Rightarrow> string list \<Rightarrow> string list" where
  "classList_add c cs = (if c \<in> set cs then cs else cs @ [c])"

definition classList_remove :: "string \<Rightarrow> string list \<Rightarrow> string list" where
  "classList_remove c cs = removeAll c cs"

definition setProperty :: "string \<Rightarrow> css_value \<Rightarrow> path \<Rightarrow> node \<Rightarrow> node" where
  "setProperty k v p d = upd (\<lambda>e. e\<lparr>style := AList.update k v (style e)\<rparr>) p d"

subsection \<open>\<open>onSliderInput\<close>\<close>

datatype error = TypeError

text \<open>
  The body of both \<open>for\<close> statements: the option at \<open>p\<close> gets the class \<open>lower\<close> when its
  position, read by \<open>pos\<close> and converted by \<open>Number\<close>, is below \<open>v\<close>, and loses it
  otherwise.
\<close>

definition set_lower :: "bool \<Rightarrow> elem \<Rightarrow> elem" where
  "set_lower b e =
     e\<lparr>classes := (if b then classList_add ''lower'' (classes e)
                    else classList_remove ''lower'' (classes e))\<rparr>"

definition mark_option :: "(elem \<Rightarrow> jsval) \<Rightarrow> jsnum \<Rightarrow> path \<Rightarrow> node \<Rightarrow> node" where
  "mark_option pos v p d =
     (case elem_at d p of
        None \<Rightarrow> d
      | Some e \<Rightarrow> upd (set_lower (js_less (Number (pos e)) v)) p d)"

text \<open>
  The collections of the DOM are live, and a \<open>for ... of\<close> statement walks one while its
  body changes the document. The body changes one class list, so that no collection
  gains, loses or reorders a member while it is walked (lemmas \<open>options_mark_option\<close>,
  \<open>getElementsByClassName_mark_option\<close> and \<open>sliders_onSliderInput\<close> below); each
  iteration is modelled over the collection as it is when the statement starts.

  The constants \<open>value\<close>, \<open>min\<close> and \<open>max\<close> of the source are \<open>v\<close>, \<open>mn\<close> and \<open>mx\<close>.
  \<open>Number(value)\<close> in the comparison is \<open>v\<close> itself, since \<open>value\<close> is a number already.
\<close>

definition progress_ratio :: "jsnum \<Rightarrow> jsnum \<Rightarrow> jsnum \<Rightarrow> css_value" where
  "progress_ratio v mn mx =
     Percent (if js_less mn mx then js_mul (js_div (js_sub v mn) (js_sub mx mn)) (Fin 100)
              else Fin 0)"

definition onSliderInput :: "node \<Rightarrow> path \<Rightarrow> error + node" where
  "onSliderInput d t =
     (case elem_at d t of
        None \<Rightarrow> Inl TypeError
      | Some target \<Rightarrow>
         (let v = or_zero (Number (prop_value target));
              mn = or_zero (Number (prop_min target));
              mx = or_zero (Number (prop_max target));
              ratio = progress_ratio v mn mx;
              baseElement = closest d t ''slider'';
              d1 = (case baseElement of
                      None \<Rightarrow> d
                    | Some b \<Rightarrow> setProperty ''--slider-progress'' ratio b d);
              sliderList =
                (case list_of d1 t of
                   Some l \<Rightarrow> Some l
                 | None \<Rightarrow>
                     (case baseElement of
                        None \<Rightarrow> None
                      | Some b \<Rightarrow> item0 (getElementsByTagName d1 b ''datalist'')))
          in (case sliderList of
               Some l \<Rightarrow> Inr (fold (mark_option option_value v) (options d1 l) d1)
             | None \<Rightarrow>
                 (case baseElement of
                    None \<Rightarrow> Inr d1
                  | Some b \<Rightarrow>
                      (case item0 (getElementsByClassName d1 b ''datalist'') of
                         None \<Rightarrow> Inr d1
                       | Some sliderDataList \<Rightarrow>
                           Inr (fold (mark_option (\<lambda>e. getAttribute e ''value'') v)
                                  (getElementsByClassName d1 sliderDataList ''option'') d1))))))"

subsection \<open>\<open>bodyOnLoad\<close>\<close>

text \<open>
  The page is the document and the \<open>input\<close> listeners that \<open>bodyOnLoad\<close> has added: each
  entry is the element a listener is attached to, and every such listener calls
  \<open>onSliderInput\<close> with the event. Each call of \<open>addEventListener\<close> passes a new closure,
  so each call adds an entry.
\<close>

record page =
  doc :: node
  listeners :: "path list"

text \<open>
  \<open>slider.getElementsByTagName('input')[0]\<close> is \<open>undefined\<close> when the slider has no
  \<open>input\<close>, and \<open>input.addEventListener\<close> then throws a \<open>TypeError\<close>; the error carries the
  page as the exception leaves it. \<open>bodyOnLoad_loop\<close> is the \<open>for ... of\<close> statement over the
  sliders that are left to visit.
\<close>

fun bodyOnLoad_loop :: "path list \<Rightarrow> page \<Rightarrow> (error \<times> page) + page" where
  "bodyOnLoad_loop [] pg = Inr pg"
| "bodyOnLoad_loop (slider # rest) pg =
     (case item0 (getElementsByTagName (doc pg) slider ''input'') of
        None \<Rightarrow> Inl (TypeError, pg)
      | Some input \<Rightarrow>
          (let pg1 = pg\<lparr>listeners := listeners pg @ [input]\<rparr>
           in case onSliderInput (doc pg1) input of
                Inl err \<Rightarrow> Inl (err, pg1)
              | Inr d' \<Rightarrow> bodyOnLoad_loop rest (pg1\<lparr>doc := d'\<rparr>)))"

definition bodyOnLoad :: "page \<Rightarrow> (error \<times> page) + page" where
  "bodyOnLoad pg = bodyOnLoad_loop (document_getElementsByClassName (doc pg) ''slider'') pg"

subsection \<open>The resolution of the marker collection, as the specification words it\<close>

text \<open>
  The specification describes the marker collection as one of three variants, resolved
  once per call, the first match winning: the list associated with the control, otherwise
  the first \<open>datalist\<close> inside the enclosing slider container, otherwise the first custom
  collection (an element of class \<open>datalist\<close>) inside that container, otherwise none.
  \<open>resolve\<close> is written from these words and is compared with \<open>onSliderInput\<close> below.
\<close>

datatype marker_source = NativeList path | CustomCollection path | NoMarkers

definition resolve :: "node \<Rightarrow> path \<Rightarrow> marker_source" where
  "resolve d t =
     (case list_of d t of
        Some l \<Rightarrow> NativeList l
      | None \<Rightarrow>
          (case closest d t ''slider'' of
             None \<Rightarrow> NoMarkers
           | Some b \<Rightarrow>
               (case item0 (getElementsByTagName d b ''datalist'') of
                  Some l \<Rightarrow> NativeList l
                | None \<Rightarrow>
                    (case item0 (getElementsByClassName d b ''datalist'') of
                       Some c \<Rightarrow> CustomCollection c
                     | None \<Rightarrow> NoMarkers))))"

text \<open>The markers of a collection, and the position a marker has in it.\<close>

fun markers :: "node \<Rightarrow> marker_source \<Rightarrow> path list" where
  "markers d (NativeList l) = options d l"
| "markers d (CustomCollection c) = getElementsByClassName d c ''option''"
| "markers d NoMarkers = []"

fun position :: "marker_source \<Rightarrow> elem \<Rightarrow> jsval" where
  "position (NativeList l) e = option_value e"
| "position (CustomCollection c) e = getAttribute e ''value''"
| "position NoMarkers e = Undefined"

text \<open>The current value, the bounds and the enclosing container of a call.\<close>

definition current :: "elem \<Rightarrow> jsnum" where
  "current target = or_zero (Number (prop_value target))"

definition lower_bound :: "elem \<Rightarrow> jsnum" where
  "lower_bound target = or_zero (Number (prop_min target))"

definition upper_bound :: "elem \<Rightarrow> jsnum" where
  "upper_bound target = or_zero (Number (prop_max target))"

definition progress_sink :: "node \<Rightarrow> path \<Rightarrow> css_value option" where
  "progress_sink d b =
     (case elem_at d b of None \<Rightarrow> None | Some e \<Rightarrow> map_of (style e) ''--slider-progress'')"

subsection \<open>What a call leaves untouched\<close>

text \<open>
  Two elements are alike when they differ at most in their inline style and in whether
  they carry the class \<open>lower\<close>; two documents are alike when they have the same shape
  and their elements are alike, path by path.
\<close>

definition sim_elem :: "elem \<Rightarrow> elem \<Rightarrow> bool" where
  "sim_elem e e' \<longleftrightarrow>
     tag e = tag e' \<and> attrs e = attrs e' \<and> cur_value e = cur_value e' \<and>
     text_content e = text_content e' \<and>
     set (classes e) - {''lower''} = set (classes e') - {''lower''}"

definition similar :: "node \<Rightarrow> node \<Rightarrow> bool" where
  "similar d d' \<longleftrightarrow>
     paths d = paths d' \<and> (\<forall>p. rel_option sim_elem (elem_at d p) (elem_at d' p))"

text \<open>What one call of \<open>onSliderInput\<close> does to the element at \<open>p\<close>.\<close>

definition sync_elem ::
  "jsnum \<Rightarrow> css_value \<Rightarrow> path option \<Rightarrow> marker_source \<Rightarrow> path list \<Rightarrow> path \<Rightarrow> elem \<Rightarrow> elem" where
  "sync_elem v ratio base src ms p e =
     (let e1 = (if base = Some p
                then e\<lparr>style := AList.update ''--slider-progress'' ratio (style e)\<rparr> else e)
      in if p \<in> set ms then set_lower (js_less (Number (position src e1)) v) e1 else e1)"

subsection \<open>The progress value, as the specification words it\<close>

text \<open>
  A field is coerced to a number, and a value that is not numeric, or is missing, counts
  as \<open>0\<close>. \<open>js_le\<close> is the operator \<open><=\<close> on numbers.
\<close>

definition spec_number :: "jsval \<Rightarrow> jsnum" where
  "spec_number x = (if Number x = NaN then Fin 0 else Number x)"

definition js_le :: "jsnum \<Rightarrow> jsnum \<Rightarrow> bool" where
  "js_le a b = (js_less a b \<or> (a = b \<and> a \<noteq> NaN))"

text \<open>The progress sink of the container \<open>b\<close> after a call, \<open>None\<close> when the call throws.\<close>

definition sink_after :: "node \<Rightarrow> path \<Rightarrow> path \<Rightarrow> css_value option" where
  "sink_after d t b =
     (case onSliderInput d t of Inl err \<Rightarrow> None | Inr d' \<Rightarrow> progress_sink d' b)"

subsection \<open>Sample documents\<close>

text \<open>
  The samples are rooted at the \<open>body\<close> element: the \<open>html\<close> element above it has no class
  and no ID, and no query of the script can tell whether it is there.
\<close>

definition elt :: "string \<Rightarrow> (string \<times> string) list \<Rightarrow> string list \<Rightarrow> elem" where
  "elt tg as cs =
     \<lparr>tag = tg, attrs = as, classes = cs, style = [], cur_value = [], text_content = []\<rparr>"

definition input_elt :: "string \<Rightarrow> (string \<times> string) list \<Rightarrow> string \<Rightarrow> elem" where
  "input_elt ty as v =
     \<lparr>tag = ''input'', attrs = (''type'', ty) # as, classes = [], style = [],
      cur_value = v, text_content = []\<rparr>"

definition range_control :: "string \<Rightarrow> string \<Rightarrow> string \<Rightarrow> elem" where
  "range_control v mn mx = input_elt ''range'' [(''min'', mn), (''max'', mx)] v"

definition number_control :: "string \<Rightarrow> string \<Rightarrow> string \<Rightarrow> elem" where
  "number_control v mn mx = input_elt ''number'' [(''min'', mn), (''max'', mx)] v"

definition native_option :: "string \<Rightarrow> string list \<Rightarrow> node" where
  "native_option v cs = Node (elt ''option'' [(''value'', v)] cs) []"

definition custom_option :: "string \<Rightarrow> string list \<Rightarrow> node" where
  "custom_option v cs = Node (elt ''div'' [(''value'', v)] (''option'' # cs)) []"

text \<open>
  The slider of the script's first example around the control \<open>ctl\<close>, with the markers
  \<open>0, 25, 50, 75, 100\<close>; the marker \<open>75\<close> carries a stale \<open>lower\<close>. A browser keeps
  the value of an \<open>input\<close> of type \<open>range\<close> between \<open>min\<close> and \<open>max\<close>; it does not do so
  for the other types, and the script takes the first \<open>input\<close> of a slider whatever its
  type is.
\<close>

definition native_doc :: "elem \<Rightarrow> node" where
  "native_doc ctl =
     Node (elt ''body'' [] [])
       [Node (elt ''div'' [] [''slider''])
          [Node ctl [],
           Node (elt ''datalist'' [] [])
             [native_option ''0'' [], native_option ''25'' [], native_option ''50'' [],
              native_option ''75'' [''lower''], native_option ''100'' []]]]"

text \<open>Two sliders with custom marker collections; a marker of each carries a stale \<open>lower\<close>.\<close>

definition custom_doc :: node where
  "custom_doc =
     Node (elt ''body'' [] [])
       [Node (elt ''div'' [] [''slider''])
          [Node (range_control ''50'' ''0'' ''100'') [],
           Node (elt ''div'' [] [''datalist''])
             [custom_option ''0'' [], custom_option ''50'' [], custom_option ''abc'' [''lower'']]],
        Node (elt ''div'' [] [''slider''])
          [Node (range_control ''2'' ''0'' ''10'') [],
           Node (elt ''div'' [] [''datalist''])
             [custom_option ''0'' [], custom_option ''5'' [''lower'']]]]"

text \<open>A slider with no \<open>input\<close>, followed by a complete one.\<close>

definition broken_doc :: node where
  "broken_doc =
     Node (elt ''body'' [] [])
       [Node (elt ''div'' [] [''slider'']) [],
        Node (elt ''div'' [] [''slider''])
          [Node (range_control ''25'' ''0'' ''100'') []]]"

text \<open>An \<open>input\<close> outside every slider, with no \<open>list\<close> attribute.\<close>

definition bare_doc :: node where
  "bare_doc = Node (elt ''body'' [] []) [Node (input_elt ''text'' [] ''abc'') []]"

text \<open>Two sliders whose controls name the same \<open>datalist\<close> in their \<open>list\<close> attribute.\<close>

definition shared_doc :: node where
  "shared_doc =
     Node (elt ''body'' [] [])
       [Node (elt ''div'' [] [''slider''])
          [Node (input_elt ''range'' [(''min'', ''0''), (''max'', ''100''), (''list'', ''ticks'')] ''10'') []],
        Node (elt ''div'' [] [''slider''])
          [Node (input_elt ''range'' [(''min'', ''0''), (''max'', ''100''), (''list'', ''ticks'')] ''90'') []],
        Node (elt ''datalist'' [(''id'', ''ticks'')] []) [native_option ''50'' []]]"

text \<open>
  Whether the element at \<open>p\<close> carries the class \<open>lower\<close> after a call on the target
  \<open>t\<close>; \<open>None\<close> when the call throws.
\<close>

definition flag_after :: "node \<Rightarrow> path \<Rightarrow> path \<Rightarrow> bool option" where
  "flag_after d t p =
     (case onSliderInput d t of
        Inl err \<Rightarrow> None
      | Inr d' \<Rightarrow> Some (has_class d' ''lower'' p))"

text \<open>
  A slider nested in another one. The inner slider comes before the marker collection of
  the outer one, and each has a custom collection of its own.
\<close>

definition nested_doc :: node where
  "nested_doc =
     Node (elt ''body'' [] [])
       [Node (elt ''div'' [] [''slider''])
          [Node (range_control ''50'' ''0'' ''100'') [],
           Node (elt ''div'' [] [''slider''])
             [Node (range_control ''5'' ''0'' ''10'') [],
              Node (elt ''div'' [] [''datalist'']) [custom_option ''7'' []]],
           Node (elt ''div'' [] [''datalist''])
             [custom_option ''20'' [], custom_option ''80'' [''lower'']]]]"

subsection \<open>The initialisation, as the specification words it\<close>

text \<open>
  The embedded control of a slider is its first \<open>input\<close> element. \<open>sync_all\<close> calls
  \<open>onSliderInput\<close> on a list of controls, one after the other. \<open>writes\<close> are the elements
  a call may change: the enclosing container and the markers of the resolved collection.
\<close>

definition first_input :: "node \<Rightarrow> path \<Rightarrow> path option" where
  "first_input d s = item0 (getElementsByTagName d s ''input'')"

definition every_slider_has_input :: "node \<Rightarrow> bool" where
  "every_slider_has_input d =
     list_all (\<lambda>s. first_input d s \<noteq> None) (document_getElementsByClassName d ''slider'')"

fun sync_all :: "path list \<Rightarrow> node \<Rightarrow> error + node" where
  "sync_all [] d = Inr d"
| "sync_all (t # ts) d =
     (case onSliderInput d t of Inl err \<Rightarrow> Inl err | Inr d' \<Rightarrow> sync_all ts d')"

definition writes :: "node \<Rightarrow> path \<Rightarrow> path list" where
  "writes d t =
     (case closest d t ''slider'' of None \<Rightarrow> [] | Some b \<Rightarrow> [b]) @ markers d (resolve d t)"

text \<open>
  Whether the element at \<open>p\<close> carries the class \<open>lower\<close> once \<open>bodyOnLoad\<close> has run on
  a page with no listener yet; \<open>None\<close> when \<open>bodyOnLoad\<close> throws.
\<close>

definition flag_after_load :: "node \<Rightarrow> path \<Rightarrow> bool option" where
  "flag_after_load d p =
     (case bodyOnLoad \<lparr>doc = d, listeners = []\<rparr> of
        Inl err \<Rightarrow> None
      | Inr pg' \<Rightarrow> Some (has_class (doc pg') ''lower'' p))"

text \<open>
  Document order on paths: an element precedes its descendants, and the subtree of a
  child precedes the subtrees of the children after it.
\<close>

fun document_order :: "path \<Rightarrow> path \<Rightarrow> bool" where
  "document_order [] q = (q \<noteq> [])"
| "document_order (i # p) [] = False"
| "document_order (i # p) (j # q) = (i < j \<or> (i = j \<and> document_order p q))"

text \<open>
  An \<open>input\<close> event at the control \<open>t\<close>, after the user has set the control to the value
  \<open>s\<close>: the browser calls the listeners attached to \<open>t\<close> in the order of their
  registration, each with an event whose target is \<open>t\<close>. An exception of a listener is
  reported by the browser and does not stop the dispatch.
\<close>

definition set_value :: "string \<Rightarrow> path \<Rightarrow> node \<Rightarrow> node" where
  "set_value s t d = upd (\<lambda>e. e\<lparr>cur_value := s\<rparr>) t d"

fun call_listeners :: "path list \<Rightarrow> path \<Rightarrow> node \<Rightarrow> node" where
  "call_listeners [] t d = d"
| "call_listeners (l # ls) t d =
     (if l = t
      then (case onSliderInput d t of
              Inl err \<Rightarrow> call_listeners ls t d
            | Inr d' \<Rightarrow> call_listeners ls t d')
      else call_listeners ls t d)"

definition input_event :: "page \<Rightarrow> path \<Rightarrow> string \<Rightarrow> page" where
  "input_event pg t s = pg\<lparr>doc := call_listeners (listeners pg) t (set_value s t (doc pg))\<rparr>"

section \<open>Trees and their updates\<close>

lemma elem_at_upd:
  "elem_at (upd f q d) p = (if p = q then map_option f (elem_at d p) else elem_at d p)"
proof (induction q arbitrary: d p)
  case Nil
  obtain e ks where d: "d = Node e ks" by (cases d)
  show ?case by (cases p) (simp_all add: d elem_at_def)
next
  case (Cons j q)
  obtain e ks where d: "d = Node e ks" by (cases d)
  show ?case
  proof (cases p)
    case Nil
    then show ?thesis by (simp add: d elem_at_def)
  next
    case (Cons i p')
    show ?thesis
    proof (cases "i = j")
      case True
      with Cons.IH [of "ks ! j" p', unfolded elem_at_def] show ?thesis
        by (auto simp: d Cons elem_at_def)
    next
      case False
      then show ?thesis by (simp add: d Cons elem_at_def)
    qed
  qed
qed

lemma paths_from_update:
  "j < length ks \<Longrightarrow> paths k' = paths (ks ! j) \<Longrightarrow> paths_from i (ks[j := k']) = paths_from i ks"
proof (induction ks arbitrary: i j)
  case Nil
  then show ?case by simp
next
  case (Cons k ks)
  then show ?case by (cases j) simp_all
qed

lemma paths_upd: "paths (upd f q d) = paths d"
proof (induction q arbitrary: d)
  case Nil
  then show ?case by (cases d) simp
next
  case (Cons j q)
  obtain e ks where d: "d = Node e ks" by (cases d)
  show ?case using Cons.IH [of "ks ! j"]
    by (simp add: d paths_from_update)
qed

lemma subtree_ext:
  "(\<And>p. elem_at d p = elem_at d' p) \<Longrightarrow> d = d'"
proof (induction d arbitrary: d')
  case (Node e ks)
  obtain e' ks' where d': "d' = Node e' ks'" by (cases d')
  have e: "e = e'" using Node.prems [of "[]"] by (simp add: d' elem_at_def)
  have len: "length ks = length ks'"
  proof (rule ccontr)
    assume ne: "length ks \<noteq> length ks'"
    let ?i = "min (length ks) (length ks')"
    from Node.prems [of "[?i]"] ne show False
      by (auto simp: d' elem_at_def min_def split: if_splits)
  qed
  have "ks ! i = ks' ! i" if i: "i < length ks" for i
  proof (rule Node.IH)
    show "ks ! i \<in> set ks" using i by simp
    fix p
    from Node.prems [of "i # p"] i len show "elem_at (ks ! i) p = elem_at (ks' ! i) p"
      by (simp add: d' elem_at_def)
  qed
  with len have "ks = ks'" by (simp add: nth_equalityI)
  with e show ?case by (simp add: d')
qed

section \<open>Documents that are alike\<close>

lemma sim_elem_refl: "sim_elem e e"
  by (simp add: sim_elem_def)

lemma sim_elem_trans: "sim_elem a b \<Longrightarrow> sim_elem b c \<Longrightarrow> sim_elem a c"
  by (simp add: sim_elem_def)

lemma sim_elem_sym: "sim_elem a b \<Longrightarrow> sim_elem b a"
  by (simp add: sim_elem_def)

lemma similar_relD: "similar d d' \<Longrightarrow> rel_option sim_elem (elem_at d p) (elem_at d' p)"
  by (simp add: similar_def)

lemma similar_paths: "similar d d' \<Longrightarrow> paths d' = paths d"
  by (simp add: similar_def)

lemma similar_refl: "similar d d"
  by (simp add: similar_def sim_elem_refl option.rel_refl)

lemma similar_trans:
  assumes "similar a b" and "similar b c"
  shows "similar a c"
proof -
  have "rel_option sim_elem (elem_at a p) (elem_at c p)" for p
  proof -
    from assms have 1: "rel_option sim_elem (elem_at a p) (elem_at b p)"
      and 2: "rel_option sim_elem (elem_at b p) (elem_at c p)"
      by (simp_all add: similar_def)
    then show ?thesis
      by (cases "elem_at a p"; cases "elem_at b p"; cases "elem_at c p")
         (auto intro: sim_elem_trans)
  qed
  with assms show ?thesis by (simp add: similar_def)
qed

lemma similar_upd:
  assumes "\<And>e. sim_elem e (f e)"
  shows "similar d (upd f q d)"
proof -
  have "rel_option sim_elem (elem_at d p) (elem_at (upd f q d) p)" for p
    using assms by (cases "elem_at d p") (auto simp: elem_at_upd sim_elem_refl)
  then show ?thesis by (simp add: similar_def paths_upd)
qed

lemma sim_elem_set_lower: "sim_elem e (set_lower b e)"
  by (auto simp: sim_elem_def set_lower_def classList_add_def classList_remove_def)

lemma sim_elem_style: "sim_elem e (e\<lparr>style := s\<rparr>)"
  by (simp add: sim_elem_def)

lemma similar_setProperty: "similar d (setProperty k v b d)"
  unfolding setProperty_def by (rule similar_upd) (rule sim_elem_style)

lemma similar_mark_option: "similar d (mark_option pos v p d)"
  unfolding mark_option_def
  by (cases "elem_at d p") (simp_all add: similar_refl similar_upd sim_elem_set_lower)

lemma similar_fold_mark: "similar d (fold (mark_option pos v) ps d)"
proof (induction ps arbitrary: d)
  case Nil
  show ?case by (simp add: similar_refl)
next
  case (Cons p ps)
  have "similar d (mark_option pos v p d)" by (rule similar_mark_option)
  moreover have "similar (mark_option pos v p d) (fold (mark_option pos v) ps (mark_option pos v p d))"
    by (rule Cons.IH)
  ultimately show ?case by (auto intro: similar_trans)
qed

text \<open>Alike documents answer every query of the script alike.\<close>

lemma similar_elem_at:
  "similar d d' \<Longrightarrow> elem_at d p = Some e \<Longrightarrow> \<exists>e'. elem_at d' p = Some e' \<and> sim_elem e e'"
  using similar_relD [of d d' p] by (cases "elem_at d' p") simp_all

lemma similar_has_tag: "similar d d' \<Longrightarrow> has_tag d' tg = has_tag d tg"
proof (rule ext)
  fix p assume "similar d d'"
  then have "rel_option sim_elem (elem_at d p) (elem_at d' p)" by (simp add: similar_def)
  then show "has_tag d' tg p = has_tag d tg p"
    by (cases "elem_at d p"; cases "elem_at d' p") (auto simp: has_tag_def sim_elem_def)
qed

lemma similar_has_id: "similar d d' \<Longrightarrow> has_id d' i = has_id d i"
proof (rule ext)
  fix p assume "similar d d'"
  then have "rel_option sim_elem (elem_at d p) (elem_at d' p)" by (simp add: similar_def)
  then show "has_id d' i p = has_id d i p"
    by (cases "elem_at d p"; cases "elem_at d' p") (auto simp: has_id_def sim_elem_def)
qed

lemma diff_single_mem: "A - {l} = B - {l} \<Longrightarrow> c \<noteq> l \<Longrightarrow> c \<in> B \<longleftrightarrow> c \<in> A"
  by blast

lemma sim_elem_class:
  "sim_elem e e' \<Longrightarrow> c \<noteq> ''lower'' \<Longrightarrow> c \<in> set (classes e') \<longleftrightarrow> c \<in> set (classes e)"
  unfolding sim_elem_def by (rule diff_single_mem) simp_all

lemma similar_has_class:
  "similar d d' \<Longrightarrow> c \<noteq> ''lower'' \<Longrightarrow> has_class d' c = has_class d c"
proof (rule ext)
  fix p assume "similar d d'" and c: "c \<noteq> ''lower''"
  then have "rel_option sim_elem (elem_at d p) (elem_at d' p)" by (simp add: similar_def)
  with c show "has_class d' c p = has_class d c p"
    by (cases "elem_at d p"; cases "elem_at d' p") (simp_all add: has_class_def sim_elem_class)
qed

lemma similar_descendants: "similar d d' \<Longrightarrow> descendants d' b = descendants d b"
  by (simp add: descendants_def similar_def)

lemma similar_getElementsByTagName:
  "similar d d' \<Longrightarrow> getElementsByTagName d' b tg = getElementsByTagName d b tg"
  by (simp add: getElementsByTagName_def similar_descendants similar_has_tag)

lemma similar_getElementsByClassName:
  "similar d d' \<Longrightarrow> c \<noteq> ''lower'' \<Longrightarrow>
   getElementsByClassName d' b c = getElementsByClassName d b c"
  by (simp add: getElementsByClassName_def similar_descendants similar_has_class)

lemma similar_document_getElementsByClassName:
  "similar d d' \<Longrightarrow> c \<noteq> ''lower'' \<Longrightarrow>
   document_getElementsByClassName d' c = document_getElementsByClassName d c"
  by (simp add: document_getElementsByClassName_def similar_has_class similar_def)

lemma similar_closest:
  "similar d d' \<Longrightarrow> c \<noteq> ''lower'' \<Longrightarrow> closest d' t c = closest d t c"
  by (simp add: closest_def similar_has_class)

lemma similar_options: "similar d d' \<Longrightarrow> options d' l = options d l"
  by (simp add: options_def similar_getElementsByTagName)

lemma similar_list_of:
  assumes "similar d d'"
  shows "list_of d' t = list_of d t"
proof (cases "elem_at d t")
  case None
  with similar_relD [OF assms, of t] have "elem_at d' t = None" by simp
  with None show ?thesis by (simp add: list_of_def)
next
  case (Some e)
  with similar_elem_at [OF assms] obtain e' where e': "elem_at d' t = Some e'"
    and sim: "sim_elem e e'" by blast
  from sim have eq: "tag e' = tag e" "attrs e' = attrs e" by (simp_all add: sim_elem_def)
  show ?thesis
    unfolding list_of_def Some e' option.case eq
      similar_paths [OF assms] similar_has_id [OF assms] similar_has_tag [OF assms] ..
qed

lemma similar_resolve: "similar d d' \<Longrightarrow> resolve d' t = resolve d t"
  by (simp add: resolve_def similar_list_of similar_closest similar_getElementsByTagName
      similar_getElementsByClassName cong: option.case_cong)

lemma similar_markers: "similar d d' \<Longrightarrow> markers d' src = markers d src"
  by (cases src) (simp_all add: similar_options similar_getElementsByClassName)

lemma sim_elem_fields:
  "sim_elem e e' \<Longrightarrow> prop_value e' = prop_value e \<and> prop_min e' = prop_min e \<and>
     prop_max e' = prop_max e \<and> option_value e' = option_value e \<and>
     getAttribute e' n = getAttribute e n"
  by (simp add: sim_elem_def prop_value_def prop_min_def prop_max_def option_value_def
      getAttribute_def attr_or_empty_def cong: option.case_cong)

lemma sim_elem_position: "sim_elem e e' \<Longrightarrow> position src e' = position src e"
  by (cases src) (simp_all add: sim_elem_fields)

lemma sim_elem_current:
  "sim_elem e e' \<Longrightarrow> current e' = current e \<and> lower_bound e' = lower_bound e \<and>
     upper_bound e' = upper_bound e"
  by (simp add: current_def lower_bound_def upper_bound_def sim_elem_fields)

section \<open>The effect of one call\<close>

lemma set_lower_idem: "set_lower b (set_lower b e) = set_lower b e"
  by (simp add: set_lower_def classList_add_def classList_remove_def)

lemma position_set_lower: "position src (set_lower b e) = position src e"
  by (rule sim_elem_position) (rule sim_elem_set_lower)

lemma position_style: "position src (e\<lparr>style := s\<rparr>) = position src e"
  by (rule sim_elem_position) (rule sim_elem_style)

lemma elem_at_mark_option:
  "elem_at (mark_option pos v q d) p =
     (if p = q then map_option (\<lambda>e. set_lower (js_less (Number (pos e)) v) e) (elem_at d p)
      else elem_at d p)"
  by (cases "elem_at d q") (auto simp: mark_option_def elem_at_upd)

lemma elem_at_fold_mark:
  assumes inv: "\<And>b e. pos (set_lower b e) = pos e"
  shows "elem_at (fold (mark_option pos v) ps d) p =
     (if p \<in> set ps then map_option (\<lambda>e. set_lower (js_less (Number (pos e)) v) e) (elem_at d p)
      else elem_at d p)"
proof (induction ps arbitrary: d)
  case Nil
  show ?case by simp
next
  case (Cons q ps)
  show ?case
    by (cases "elem_at d p")
       (auto simp: Cons.IH elem_at_mark_option inv set_lower_idem)
qed

lemma elem_at_setProperty:
  "elem_at (setProperty k v b d) p =
     (if p = b then map_option (\<lambda>e. e\<lparr>style := AList.update k v (style e)\<rparr>) (elem_at d p)
      else elem_at d p)"
  by (simp add: setProperty_def elem_at_upd)

text \<open>The document after the progress sink is written, before any marker is touched.\<close>

lemma onSliderInput_resolved:
  assumes target: "elem_at d t = Some target"
  defines "d1 \<equiv> (case closest d t ''slider'' of
                    None \<Rightarrow> d
                  | Some b \<Rightarrow> setProperty ''--slider-progress''
                      (progress_ratio (current target) (lower_bound target) (upper_bound target)) b d)"
  shows "onSliderInput d t =
     Inr (fold (mark_option (position (resolve d t)) (current target))
            (markers d (resolve d t)) d1)"
proof -
  have sim: "similar d d1"
    by (cases "closest d t ''slider''") (simp_all add: d1_def similar_refl similar_setProperty)
  have l: "list_of d1 t = list_of d t" by (rule similar_list_of [OF sim])
  have g: "getElementsByTagName d1 b tg = getElementsByTagName d b tg" for b tg
    by (rule similar_getElementsByTagName [OF sim])
  have c: "getElementsByClassName d1 b ''datalist'' = getElementsByClassName d b ''datalist''"
          "getElementsByClassName d1 b ''option'' = getElementsByClassName d b ''option''" for b
    by (simp_all add: similar_getElementsByClassName [OF sim])
  have o: "options d1 b = options d b" for b by (rule similar_options [OF sim])
  have pos: "position (NativeList x) = option_value"
    "position (CustomCollection x) = (\<lambda>e. getAttribute e ''value'')" for x
    by (rule ext, simp)+
  show ?thesis
    unfolding onSliderInput_def target option.case Let_def l g c o
      d1_def [symmetric] current_def [symmetric] lower_bound_def [symmetric]
      upper_bound_def [symmetric] resolve_def
    by (simp add: pos split: option.splits)
qed

lemma onSliderInput_returns:
  "elem_at d t = Some target \<Longrightarrow> \<exists>d'. onSliderInput d t = Inr d'"
  by (simp add: onSliderInput_resolved)

lemma elem_at_onSliderInput:
  assumes target: "elem_at d t = Some target" and run: "onSliderInput d t = Inr d'"
  shows "elem_at d' p =
     map_option
       (sync_elem (current target)
          (progress_ratio (current target) (lower_bound target) (upper_bound target))
          (closest d t ''slider'') (resolve d t) (markers d (resolve d t)) p)
       (elem_at d p)"
proof -
  from run have d': "d' = fold (mark_option (position (resolve d t)) (current target))
       (markers d (resolve d t))
       (case closest d t ''slider'' of
          None \<Rightarrow> d
        | Some b \<Rightarrow> setProperty ''--slider-progress''
            (progress_ratio (current target) (lower_bound target) (upper_bound target)) b d)"
    by (simp add: onSliderInput_resolved [OF target])
  show ?thesis
    unfolding d'
    by (cases "closest d t ''slider''"; cases "elem_at d p")
       (auto simp: elem_at_fold_mark position_set_lower elem_at_setProperty sync_elem_def Let_def)
qed

lemma similar_onSliderInput:
  assumes "elem_at d t = Some target" and "onSliderInput d t = Inr d'"
  shows "similar d d'"
proof -
  have 1: "similar d (case closest d t ''slider'' of
          None \<Rightarrow> d
        | Some b \<Rightarrow> setProperty ''--slider-progress''
            (progress_ratio (current target) (lower_bound target) (upper_bound target)) b d)"
    by (cases "closest d t ''slider''") (simp_all add: similar_refl similar_setProperty)
  from assms show ?thesis
    by (auto simp: onSliderInput_resolved intro: similar_trans [OF 1 similar_fold_mark])
qed

lemma closest_valid: "closest d t c = Some b \<Longrightarrow> \<exists>e. elem_at d b = Some e"
  by (auto simp: closest_def find_Some_iff has_class_def split: option.splits)

lemma sink_onSliderInput:
  assumes target: "elem_at d t = Some target" and base: "closest d t ''slider'' = Some b"
    and run: "onSliderInput d t = Inr d'"
  shows "progress_sink d' b =
     Some (progress_ratio (current target) (lower_bound target) (upper_bound target))"
proof -
  from closest_valid [OF base] obtain e where e: "elem_at d b = Some e" by blast
  show ?thesis
    unfolding progress_sink_def elem_at_onSliderInput [OF target run] e base
    by (simp add: sync_elem_def Let_def set_lower_def update_conv')
qed

lemma or_zero_spec: "or_zero (Number x) = spec_number x"
  by (simp add: or_zero_def spec_number_def)

lemma or_zero_not_NaN: "or_zero x \<noteq> NaN"
  by (simp add: or_zero_def)

lemma js_less_or_le: "a \<noteq> NaN \<Longrightarrow> b \<noteq> NaN \<Longrightarrow> js_less a b \<or> js_le b a"
  by (cases a; cases b) (auto simp: js_le_def)

lemma js_less_not_le: "js_less a b \<Longrightarrow> \<not> js_le b a"
  by (cases a; cases b) (auto simp: js_le_def)

subsection \<open>One element under a call\<close>

lemma update_idem: "AList.update k v (AList.update k v al) = AList.update k v al"
  by (induction al) auto

lemma lower_set_lower: "''lower'' \<in> set (classes (set_lower b e)) \<longleftrightarrow> b"
  by (simp add: set_lower_def classList_add_def classList_remove_def)

lemma style_set_lower: "style (set_lower b e) = style e"
  by (simp add: set_lower_def)

lemma set_lower_style:
  "set_lower b e\<lparr>style := s\<rparr> = set_lower b (e\<lparr>style := s\<rparr>)"
  by (simp add: set_lower_def)

lemma sync_elem_idem:
  "sync_elem v r base src ms p (sync_elem v r base src ms p e) = sync_elem v r base src ms p e"
  by (simp add: sync_elem_def Let_def position_set_lower position_style set_lower_idem
      style_set_lower set_lower_style update_idem)

lemma sim_elem_sync_elem: "sim_elem e (sync_elem v r base src ms p e)"
  by (auto simp: sync_elem_def Let_def sim_elem_style sim_elem_set_lower sim_elem_refl
      intro: sim_elem_trans [OF sim_elem_style sim_elem_set_lower])

lemma item0_mem: "item0 ps = Some p \<Longrightarrow> p \<in> set ps"
  by (cases ps) (simp_all add: item0_def)

lemma item0_None: "item0 ps = None \<longleftrightarrow> ps = []"
  by (cases ps) (simp_all add: item0_def)

lemma getElementsByTagName_valid:
  "p \<in> set (getElementsByTagName d b tg) \<Longrightarrow> \<exists>e. elem_at d p = Some e \<and> tag e = tg"
  by (auto simp: getElementsByTagName_def has_tag_def split: option.splits)

lemma getElementsByClassName_valid:
  "p \<in> set (getElementsByClassName d b c) \<Longrightarrow> \<exists>e. elem_at d p = Some e \<and> c \<in> set (classes e)"
  by (auto simp: getElementsByClassName_def has_class_def split: option.splits)

lemma getElementsByTagName_below:
  "p \<in> set (getElementsByTagName d b tg) \<Longrightarrow> strict_prefix b p"
  by (simp add: getElementsByTagName_def descendants_def)

lemma getElementsByClassName_below:
  "p \<in> set (getElementsByClassName d b c) \<Longrightarrow> strict_prefix b p"
  by (simp add: getElementsByClassName_def descendants_def)

lemma markers_valid: "p \<in> set (markers d src) \<Longrightarrow> \<exists>e. elem_at d p = Some e"
  by (cases src)
     (auto simp: options_def dest: getElementsByTagName_valid getElementsByClassName_valid)

lemma classes_sync_elem:
  "''lower'' \<in> set (classes (sync_elem v r base src ms p e)) \<longleftrightarrow>
     (if p \<in> set ms then js_less (Number (position src e)) v else ''lower'' \<in> set (classes e))"
  by (simp add: sync_elem_def Let_def lower_set_lower position_style)

lemma classes_sync_elem_other:
  "p \<notin> set ms \<Longrightarrow> classes (sync_elem v r base src ms p e) = classes e"
  by (simp add: sync_elem_def Let_def)

lemma style_sync_elem_other:
  "base \<noteq> Some p \<Longrightarrow> style (sync_elem v r base src ms p e) = style e"
  by (simp add: sync_elem_def Let_def style_set_lower)

lemma sync_elem_id: "base \<noteq> Some p \<Longrightarrow> p \<notin> set ms \<Longrightarrow> sync_elem v r base src ms p e = e"
  by (simp add: sync_elem_def Let_def)

lemma js_less_irrefl: "\<not> js_less a a"
  by (cases a) simp_all

subsection \<open>The iteration of \<open>bodyOnLoad\<close>\<close>

lemma similar_first_input: "similar d d' \<Longrightarrow> first_input d' s = first_input d s"
  by (simp add: first_input_def similar_getElementsByTagName)

lemma first_input_valid: "first_input d s = Some t \<Longrightarrow> \<exists>e. elem_at d t = Some e"
  unfolding first_input_def by (blast dest: item0_mem getElementsByTagName_valid)

lemma bodyOnLoad_loop_ok:
  assumes "list_all (\<lambda>s. first_input (doc pg) s \<noteq> None) ss"
  shows "\<exists>pg' ts. bodyOnLoad_loop ss pg = Inr pg' \<and>
     map Some ts = map (first_input (doc pg)) ss \<and>
     listeners pg' = listeners pg @ ts \<and>
     sync_all ts (doc pg) = Inr (doc pg') \<and> similar (doc pg) (doc pg')"
  using assms
proof (induction ss arbitrary: pg)
  case Nil
  show ?case by (simp add: similar_refl)
next
  case (Cons s ss)
  from Cons.prems obtain t where t: "first_input (doc pg) s = Some t" by auto
  from first_input_valid [OF t] obtain e where e: "elem_at (doc pg) t = Some e" by blast
  from onSliderInput_returns [OF e] obtain d' where run: "onSliderInput (doc pg) t = Inr d'"
    by blast
  have sim: "similar (doc pg) d'" by (rule similar_onSliderInput [OF e run])
  let ?pg = "pg\<lparr>listeners := listeners pg @ [t], doc := d'\<rparr>"
  have fi: "first_input (doc ?pg) = first_input (doc pg)"
    by (rule ext) (simp add: similar_first_input [OF sim])
  from Cons.prems have "list_all (\<lambda>s. first_input (doc ?pg) s \<noteq> None) ss"
    unfolding fi by simp
  from Cons.IH [OF this] obtain pg' ts where
    loop: "bodyOnLoad_loop ss ?pg = Inr pg'"
    and ts: "map Some ts = map (first_input (doc ?pg)) ss"
    and ls: "listeners pg' = listeners ?pg @ ts"
    and sa: "sync_all ts (doc ?pg) = Inr (doc pg')"
    and sim': "similar (doc ?pg) (doc pg')"
    by blast
  have 1: "bodyOnLoad_loop (s # ss) pg = Inr pg'"
    using t run loop by (simp add: first_input_def)
  have 2: "map Some (t # ts) = map (first_input (doc pg)) (s # ss)"
    using ts t unfolding fi by simp
  have 3: "listeners pg' = listeners pg @ (t # ts)" using ls by simp
  have 4: "sync_all (t # ts) (doc pg) = Inr (doc pg')" using sa run by simp
  have 5: "similar (doc pg) (doc pg')" using sim sim' by (auto intro: similar_trans)
  from 1 2 3 4 5 show ?case by blast
qed

lemma bodyOnLoad_throws:
  "first_input (doc pg) s = None \<Longrightarrow> bodyOnLoad_loop (s # ss) pg = Inl (TypeError, pg)"
  by (simp add: first_input_def)

subsection \<open>Repeated calls and calls on other controls\<close>

lemma onSliderInput_fixpoint:
  assumes "elem_at d t = Some target" and run: "onSliderInput d t = Inr d'"
  shows "onSliderInput d' t = Inr d'"
proof -
  have sim: "similar d d'" by (rule similar_onSliderInput [OF assms(1) run])
  from similar_elem_at [OF sim assms(1)] obtain target' where target': "elem_at d' t = Some target'"
    and st: "sim_elem target target'" by blast
  from onSliderInput_returns [OF target'] obtain d'' where run': "onSliderInput d' t = Inr d''"
    by blast
  have cur: "current target' = current target" "lower_bound target' = lower_bound target"
    "upper_bound target' = upper_bound target"
    using sim_elem_current [OF st] by simp_all
  have "elem_at d'' p = elem_at d' p" for p
    unfolding elem_at_onSliderInput [OF target' run'] cur
      similar_closest [OF sim, of "''slider''", simplified] similar_resolve [OF sim]
      similar_markers [OF sim]
    unfolding elem_at_onSliderInput [OF assms(1) run]
    by (cases "elem_at d p") (simp_all add: sync_elem_idem)
  then have "d'' = d'" by (rule subtree_ext)
  with run' show ?thesis by simp
qed


lemma elem_at_onSliderInput_similar:
  assumes sim: "similar d0 d" and target0: "elem_at d0 t = Some target0"
    and run: "onSliderInput d t = Inr d'"
  shows "elem_at d' p =
     map_option
       (sync_elem (current target0)
          (progress_ratio (current target0) (lower_bound target0) (upper_bound target0))
          (closest d0 t ''slider'') (resolve d0 t) (markers d0 (resolve d0 t)) p)
       (elem_at d p)"
proof -
  from similar_elem_at [OF sim target0] obtain target where target: "elem_at d t = Some target"
    and st: "sim_elem target0 target" by blast
  have cur: "current target = current target0" "lower_bound target = lower_bound target0"
    "upper_bound target = upper_bound target0"
    using sim_elem_current [OF st] by simp_all
  show ?thesis
    unfolding elem_at_onSliderInput [OF target run] cur
      similar_closest [OF sim, of "''slider''", simplified] similar_resolve [OF sim]
      similar_markers [OF sim] ..
qed

lemma similar_writes: "similar d d' \<Longrightarrow> writes d' t = writes d t"
  by (simp add: writes_def similar_closest similar_resolve similar_markers)

lemma sync_elem_outside_writes:
  "p \<notin> set (writes d t) \<Longrightarrow>
   sync_elem v r (closest d t ''slider'') src (markers d (resolve d t)) p e = e"
  by (rule sync_elem_id) (auto simp: writes_def)

lemma onSliderInput_frame:
  assumes "similar d0 d" and "onSliderInput d t = Inr d'" and "p \<notin> set (writes d0 t)"
  shows "elem_at d' p = elem_at d p"
proof (cases "elem_at d0 t")
  case None
  with similar_relD [OF assms(1), of t] have "elem_at d t = None" by simp
  with assms(2) show ?thesis by (simp add: onSliderInput_def)
next
  case (Some target0)
  show ?thesis
    unfolding elem_at_onSliderInput_similar [OF assms(1) Some assms(2)]
    by (cases "elem_at d p") (simp_all add: sync_elem_outside_writes [OF assms(3)])
qed

lemma onSliderInput_Inr_target: "onSliderInput d t = Inr d' \<Longrightarrow> \<exists>e. elem_at d t = Some e"
  by (cases "elem_at d t") (simp_all add: onSliderInput_def)

lemma similar_onSliderInput': "onSliderInput d t = Inr d' \<Longrightarrow> similar d d'"
  by (blast dest: onSliderInput_Inr_target intro: similar_onSliderInput)

lemma sync_all_frame:
  assumes "similar d0 d" and "sync_all ts d = Inr d'"
    and "list_all (\<lambda>u. p \<notin> set (writes d0 u)) ts"
  shows "elem_at d' p = elem_at d p \<and> similar d0 d'"
  using assms
proof (induction ts arbitrary: d)
  case Nil
  then show ?case by simp
next
  case (Cons u ts)
  from Cons.prems(2) obtain d1 where run: "onSliderInput d u = Inr d1"
    and rest: "sync_all ts d1 = Inr d'"
    by (auto split: sum.splits)
  have sim1: "similar d0 d1"
    using Cons.prems(1) similar_onSliderInput' [OF run] by (rule similar_trans)
  from Cons.prems(3) have "p \<notin> set (writes d0 u)" by simp
  from onSliderInput_frame [OF Cons.prems(1) run this]
  have 1: "elem_at d1 p = elem_at d p" .
  from Cons.prems(3) have "list_all (\<lambda>u. p \<notin> set (writes d0 u)) ts" by simp
  from Cons.IH [OF sim1 rest this] 1 show ?case by simp
qed

lemma sync_all_similar: "sync_all ts d = Inr d' \<Longrightarrow> similar d d'"
proof (induction ts arbitrary: d)
  case Nil
  then show ?case by (simp add: similar_refl)
next
  case (Cons u ts)
  from Cons.prems obtain d1 where run: "onSliderInput d u = Inr d1"
    and rest: "sync_all ts d1 = Inr d'"
    by (auto split: sum.splits)
  from similar_onSliderInput' [OF run] Cons.IH [OF rest] show ?case by (rule similar_trans)
qed

lemma sync_all_append:
  "sync_all (pre @ post) d = Inr d' \<Longrightarrow>
   \<exists>d1. sync_all pre d = Inr d1 \<and> sync_all post d1 = Inr d'"
  by (induction pre arbitrary: d) (auto split: sum.splits)

lemma fixpoint_transfer:
  assumes sim: "similar d1 d2" and fp: "onSliderInput d1 t = Inr d1"
    and same: "\<And>p. p \<in> set (writes d1 t) \<Longrightarrow> elem_at d2 p = elem_at d1 p"
  shows "onSliderInput d2 t = Inr d2"
proof -
  from onSliderInput_Inr_target [OF fp] obtain target1 where t1: "elem_at d1 t = Some target1"
    by blast
  from similar_elem_at [OF sim t1] obtain target2 where t2: "elem_at d2 t = Some target2"
    by blast
  from onSliderInput_returns [OF t2] obtain d3 where run: "onSliderInput d2 t = Inr d3"
    by blast
  let ?F = "sync_elem (current target1)
          (progress_ratio (current target1) (lower_bound target1) (upper_bound target1))
          (closest d1 t ''slider'') (resolve d1 t) (markers d1 (resolve d1 t))"
  have f1: "map_option (?F p) (elem_at d1 p) = elem_at d1 p" for p
    using elem_at_onSliderInput [OF t1 fp, of p] by simp
  have "elem_at d3 p = elem_at d2 p" for p
  proof (cases "p \<in> set (writes d1 t)")
    case True
    from same [OF True] f1 [of p] show ?thesis
      by (simp add: elem_at_onSliderInput_similar [OF sim t1 run])
  next
    case False
    show ?thesis
      unfolding elem_at_onSliderInput_similar [OF sim t1 run]
      by (cases "elem_at d2 p") (simp_all add: sync_elem_outside_writes [OF False])
  qed
  then have "d3 = d2" by (rule subtree_ext)
  with run show ?thesis by simp
qed

lemma sync_all_settled:
  assumes run: "sync_all (pre @ t # post) d = Inr d'"
    and indep: "list_all (\<lambda>u. set (writes d u) \<inter> set (writes d t) = {}) post"
  shows "onSliderInput d' t = Inr d'"
proof -
  from sync_all_append [OF run] obtain d1 where pre: "sync_all pre d = Inr d1"
    and rest: "sync_all (t # post) d1 = Inr d'" by blast
  from rest obtain d2 where step: "onSliderInput d1 t = Inr d2"
    and post: "sync_all post d2 = Inr d'"
    by (auto split: sum.splits)
  from onSliderInput_Inr_target [OF step] obtain target where "elem_at d1 t = Some target"
    by blast
  then have fp: "onSliderInput d2 t = Inr d2" using step by (rule onSliderInput_fixpoint)
  have sim1: "similar d d1" by (rule sync_all_similar [OF pre])
  have sim2: "similar d d2"
    using sim1 similar_onSliderInput' [OF step] by (rule similar_trans)
  have w2: "writes d2 u = writes d u" for u by (rule similar_writes [OF sim2])
  show ?thesis
  proof (rule fixpoint_transfer [OF sync_all_similar [OF post] fp])
    fix p assume "p \<in> set (writes d2 t)"
    then have p: "p \<in> set (writes d t)" by (simp add: w2)
    have "list_all (\<lambda>u. p \<notin> set (writes d2 u)) post"
      using indep p unfolding w2 list_all_iff by blast
    from sync_all_frame [OF similar_refl post this] show "elem_at d' p = elem_at d2 p" by simp
  qed
qed

subsection \<open>Live collections\<close>

text \<open>The collections that the script walks are not changed by what it does to them.\<close>

lemma options_mark_option: "options (mark_option pos v p d) l = options d l"
  by (rule similar_options [OF similar_mark_option])

lemma getElementsByClassName_mark_option:
  "c \<noteq> ''lower'' \<Longrightarrow>
   getElementsByClassName (mark_option pos v p d) b c = getElementsByClassName d b c"
  by (rule similar_getElementsByClassName [OF similar_mark_option])

lemma sliders_onSliderInput:
  "onSliderInput d t = Inr d' \<Longrightarrow>
   document_getElementsByClassName d' ''slider'' = document_getElementsByClassName d ''slider''"
  by (rule similar_document_getElementsByClassName [OF similar_onSliderInput']) simp_all

subsection \<open>Document order\<close>

lemma paths_from_mem:
  "q \<in> set (paths_from n ks) \<longleftrightarrow>
     (\<exists>i p. q = i # p \<and> n \<le> i \<and> i - n < length ks \<and> p \<in> set (paths (ks ! (i - n))))"
proof (induction ks arbitrary: n)
  case Nil
  show ?case by simp
next
  case (Cons k ks)
  show ?case
  proof
    assume "q \<in> set (paths_from n (k # ks))"
    then consider p where "q = n # p" "p \<in> set (paths k)" | "q \<in> set (paths_from (Suc n) ks)"
      by auto
    then show "\<exists>i p. q = i # p \<and> n \<le> i \<and> i - n < length (k # ks) \<and>
        p \<in> set (paths ((k # ks) ! (i - n)))"
    proof cases
      case 1
      then show ?thesis by auto
    next
      case 2
      then obtain i p where "q = i # p" "Suc n \<le> i" "i - Suc n < length ks"
        "p \<in> set (paths (ks ! (i - Suc n)))"
        unfolding Cons.IH by blast
      then show ?thesis
        by (intro exI [of _ i] exI [of _ p]) (auto simp: nth_Cons')
    qed
  next
    assume "\<exists>i p. q = i # p \<and> n \<le> i \<and> i - n < length (k # ks) \<and>
        p \<in> set (paths ((k # ks) ! (i - n)))"
    then obtain i p where q: "q = i # p" and i: "n \<le> i" "i - n < length (k # ks)"
      and p: "p \<in> set (paths ((k # ks) ! (i - n)))" by blast
    show "q \<in> set (paths_from n (k # ks))"
    proof (cases "i = n")
      case True
      with q p show ?thesis by simp
    next
      case False
      with i have "Suc n \<le> i" "i - Suc n < length ks" by auto
      moreover from False i p have "p \<in> set (paths (ks ! (i - Suc n)))"
        by (simp add: nth_Cons')
      ultimately have "q \<in> set (paths_from (Suc n) ks)"
        by (subst Cons.IH) (simp add: q)
      then show ?thesis by simp
    qed
  qed
qed

lemma paths_mem: "p \<in> set (paths d) \<longleftrightarrow> elem_at d p \<noteq> None"
proof (induction p arbitrary: d)
  case Nil
  show ?case by (cases d) (simp add: elem_at_def)
next
  case (Cons i p)
  obtain e ks where d: "d = Node e ks" by (cases d)
  show ?case
    using Cons.IH [of "ks ! i"] by (auto simp: d paths_from_mem elem_at_def)
qed

lemma document_getElementsByClassName_set:
  "set (document_getElementsByClassName d c) = {p. has_class d c p}"
  by (auto simp: document_getElementsByClassName_def paths_mem has_class_def
      split: option.splits)

lemma sorted_paths_from_aux:
  assumes "\<And>k. k \<in> set ks \<Longrightarrow> sorted_wrt document_order (paths k)"
  shows "sorted_wrt document_order (paths_from n ks)"
  using assms
proof (induction ks arbitrary: n)
  case Nil
  show ?case by simp
next
  case (Cons k ks)
  have 1: "sorted_wrt document_order (map ((#) n) (paths k))"
    using Cons.prems [of k]
    by (simp add: sorted_wrt_map)
  have 2: "sorted_wrt document_order (paths_from (Suc n) ks)"
    by (rule Cons.IH) (simp add: Cons.prems)
  have 3: "document_order x y"
    if "x \<in> set (map ((#) n) (paths k))" "y \<in> set (paths_from (Suc n) ks)" for x y
    using that by (auto simp: paths_from_mem)
  from 1 2 3 show ?case by (simp add: sorted_wrt_append)
qed

lemma sorted_paths: "sorted_wrt document_order (paths d)"
proof (induction d)
  case (Node e ks)
  have "sorted_wrt document_order (paths_from 0 ks)"
    by (rule sorted_paths_from_aux) (rule Node.IH)
  moreover have "document_order [] q" if "q \<in> set (paths_from 0 ks)" for q
    using that by (auto simp: paths_from_mem)
  ultimately show ?case by simp
qed

lemma sorted_document_getElementsByClassName:
  "sorted_wrt document_order (document_getElementsByClassName d c)"
  unfolding document_getElementsByClassName_def
  by (rule sorted_wrt_filter) (rule sorted_paths)

subsection \<open>Input events\<close>

lemma elem_at_set_value:
  "elem_at d t = Some e \<Longrightarrow> elem_at (set_value s t d) t = Some (e\<lparr>cur_value := s\<rparr>)"
  by (simp add: set_value_def elem_at_upd)

lemma call_listeners_fixpoint:
  "onSliderInput d t = Inr d \<Longrightarrow> call_listeners ls t d = d"
  by (induction ls) simp_all

lemma call_listeners_once:
  assumes "t \<in> set ls" and "onSliderInput d t = Inr d'"
  shows "call_listeners ls t d = d'"
  using assms(1)
proof (induction ls)
  case Nil
  then show ?case by simp
next
  case (Cons l ls)
  from onSliderInput_Inr_target [OF assms(2)] obtain e where "elem_at d t = Some e" by blast
  then have fp: "onSliderInput d' t = Inr d'" using assms(2) by (rule onSliderInput_fixpoint)
  show ?case
  proof (cases "l = t")
    case True
    then show ?thesis by (simp add: assms(2) call_listeners_fixpoint [OF fp])
  next
    case False
    with Cons show ?thesis by simp
  qed
qed

section \<open>Rounding to a double\<close>

lemma pow2_powi: "pow2 k = 2 powi k"
  by (simp add: pow2_def power_int_def power_one_over [symmetric] inverse_eq_divide)

lemma pow2_pos: "0 < pow2 k"
  by (simp add: pow2_powi)

lemma pow2_add: "pow2 (i + j) = pow2 i * pow2 j"
  by (simp add: pow2_powi power_int_add)

lemma pow2_diff: "pow2 (i - j) = pow2 i / pow2 j"
  by (simp add: pow2_powi power_int_diff)

lemma pow2_mono: "i \<le> j \<Longrightarrow> pow2 i \<le> pow2 j"
  by (simp add: pow2_powi power_int_increasing)

lemma pow2_strict_mono: "i < j \<Longrightarrow> pow2 i < pow2 j"
  by (simp add: pow2_powi power_int_strict_increasing)

lemma pow2_less_iff: "pow2 i < pow2 j \<longleftrightarrow> i < j"
proof
  assume "pow2 i < pow2 j"
  show "i < j"
  proof (rule ccontr)
    assume "\<not> i < j"
    then have "pow2 j \<le> pow2 i" by (simp add: pow2_mono)
    with \<open>pow2 i < pow2 j\<close> show False by simp
  qed
qed (rule pow2_strict_mono)

lemma pow2_nat: "0 \<le> k \<Longrightarrow> pow2 k = of_int (2 ^ nat k)"
  by (simp add: pow2_def)

lemma expo_bounds:
  assumes "0 < q"
  shows "pow2 (expo q) \<le> q \<and> q < pow2 (expo q + 1)"
proof -
  obtain a b where ab: "quotient_of q = (a, b)" by (cases "quotient_of q")
  have b: "0 < b" by (rule quotient_of_denom_pos [OF ab])
  have q: "q = of_int a / of_int b" by (rule quotient_of_div [OF ab])
  from assms b have a: "0 < a" by (simp add: q zero_less_divide_iff)
  from a bitlen_nonneg [of a] bitlen_eq_zero_iff [of a] have la: "0 < bitlen a" by linarith
  from b bitlen_nonneg [of b] bitlen_eq_zero_iff [of b] have lb: "0 < bitlen b" by linarith
  from bitlen_bounds [OF a] have "of_int (2 ^ nat (bitlen a - 1)) \<le> (of_int a :: rat)"
    and "(of_int a :: rat) < of_int (2 ^ nat (bitlen a))"
    by (simp_all only: of_int_le_iff of_int_less_iff)
  with la have A: "pow2 (bitlen a - 1) \<le> of_int a" "of_int a < pow2 (bitlen a)"
    by (simp_all add: pow2_nat)
  from bitlen_bounds [OF b] have "of_int (2 ^ nat (bitlen b - 1)) \<le> (of_int b :: rat)"
    and "(of_int b :: rat) < of_int (2 ^ nat (bitlen b))"
    by (simp_all only: of_int_le_iff of_int_less_iff)
  with lb have B: "pow2 (bitlen b - 1) \<le> of_int b" "of_int b < pow2 (bitlen b)"
    by (simp_all add: pow2_nat)
  let ?k = "bitlen a - bitlen b"
  have "q < pow2 (bitlen a) / pow2 (bitlen b - 1)"
    unfolding q using a A(2) B(1) pow2_pos [of "bitlen b - 1"]
    by (intro frac_less) simp_all
  also have "\<dots> = pow2 (?k + 1)"
    by (simp add: pow2_diff [symmetric] algebra_simps)
  finally have up: "q < pow2 (?k + 1)" .
  have "pow2 (?k - 1) = pow2 (bitlen a - 1) / pow2 (bitlen b)"
    by (simp add: pow2_diff [symmetric] algebra_simps)
  also have "\<dots> \<le> q"
    unfolding q using a b A(1) B(2) pow2_pos [of "bitlen a - 1"]
    by (intro frac_le) simp_all
  finally have lo: "pow2 (?k - 1) \<le> q" .
  show ?thesis
    using up lo by (auto simp: expo_def ab Let_def)
qed

lemma expo_mono:
  assumes "0 < x" and "x \<le> y"
  shows "expo x \<le> expo y"
proof -
  from assms have "0 < y" by simp
  from expo_bounds [OF assms(1)] expo_bounds [OF this] assms(2)
  have "pow2 (expo x) < pow2 (expo y + 1)" by linarith
  then show ?thesis by (simp add: pow2_less_iff)
qed

lemma round_even_of_int: "round_even (of_int n) = n"
  by (simp add: round_even_def)

lemma round_even_bounds: "\<lfloor>x\<rfloor> \<le> round_even x \<and> round_even x \<le> \<lfloor>x\<rfloor> + 1"
  by (simp add: round_even_def Let_def)

lemma round_even_mono:
  assumes "x \<le> y"
  shows "round_even x \<le> round_even y"
proof (cases "\<lfloor>x\<rfloor> < \<lfloor>y\<rfloor>")
  case True
  with round_even_bounds [of x] round_even_bounds [of y] show ?thesis by linarith
next
  case False
  with floor_mono [OF assms] have "\<lfloor>x\<rfloor> = \<lfloor>y\<rfloor>" by simp
  with assms show ?thesis by (auto simp: round_even_def Let_def)
qed

lemma round_even_le: "x \<le> of_int n \<Longrightarrow> round_even x \<le> n"
  using round_even_mono [of x "of_int n"] by (simp add: round_even_of_int)

lemma round_even_ge: "of_int n \<le> x \<Longrightarrow> n \<le> round_even x"
  using round_even_mono [of "of_int n" x] by (simp add: round_even_of_int)


lemma scale_52: "of_int (2 ^ 52) * pow2 (e - 52) = pow2 e"
proof -
  have "pow2 52 * pow2 (e - 52) = pow2 e" by (simp add: pow2_add [symmetric])
  moreover have "pow2 52 = of_int (2 ^ 52)" by (simp add: pow2_def)
  ultimately show ?thesis by (simp only:)
qed

lemma scale_53: "of_int (2 ^ 53) * pow2 (e - 52) = pow2 (e + 1)"
proof -
  have "pow2 53 * pow2 (e - 52) = pow2 (e + 1)"
    by (simp add: pow2_add [symmetric] add.commute)
  moreover have "pow2 53 = of_int (2 ^ 53)" by (simp add: pow2_def)
  ultimately show ?thesis by (simp only:)
qed

text \<open>The rounded magnitude of a positive value stays in the binade of the value.\<close>

lemma rnd_mag_count:
  assumes "0 < q"
  shows "0 \<le> round_even (q / pow2 (max (expo q) (- 1022) - 52)) \<and>
     round_even (q / pow2 (max (expo q) (- 1022) - 52)) \<le> 2 ^ 53"
proof -
  let ?e = "max (expo q) (- 1022)"
  let ?u = "pow2 (?e - 52)"
  have u: "0 < ?u" by (rule pow2_pos)
  from expo_bounds [OF assms] have "q < pow2 (expo q + 1)" by simp
  also have "\<dots> \<le> pow2 (?e + 1)" by (rule pow2_mono) simp
  finally have "q / ?u < pow2 (?e + 1) / ?u" using u by (simp add: divide_strict_right_mono)
  also have "pow2 (?e + 1) / ?u = pow2 53"
    by (simp add: pow2_diff [symmetric] algebra_simps)
  also have "pow2 53 = of_int (2 ^ 53)" by (simp add: pow2_def)
  finally have "round_even (q / ?u) \<le> 2 ^ 53" by (intro round_even_le) simp
  moreover from assms u have "of_int 0 \<le> q / ?u" by simp
  then have "0 \<le> round_even (q / ?u)" by (rule round_even_ge)
  ultimately show ?thesis by simp
qed

lemma rnd_mag_nonneg: "0 < q \<Longrightarrow> 0 \<le> rnd_mag q"
  using rnd_mag_count [of q] pow2_pos [of "max (expo q) (- 1022) - 52"]
  by (simp add: rnd_mag_def Let_def)

lemma rnd_mag_upper:
  assumes "0 < q"
  shows "rnd_mag q \<le> pow2 (max (expo q) (- 1022) + 1)"
proof -
  let ?e = "max (expo q) (- 1022)"
  let ?u = "pow2 (?e - 52)"
  from rnd_mag_count [OF assms] have "(of_int (round_even (q / ?u)) :: rat) \<le> of_int (2 ^ 53)"
    by (simp only: of_int_le_iff)
  then have "rnd_mag q \<le> of_int (2 ^ 53) * ?u"
    using pow2_pos [of "?e - 52"] by (simp add: rnd_mag_def Let_def)
  also have "of_int (2 ^ 53) * ?u = pow2 (?e + 1)" by (rule scale_53)
  finally show ?thesis .
qed

lemma rnd_mag_lower:
  assumes "0 < q" and "- 1022 \<le> expo q"
  shows "pow2 (expo q) \<le> rnd_mag q"
proof -
  let ?u = "pow2 (expo q - 52)"
  have u: "0 < ?u" by (rule pow2_pos)
  have "pow2 52 = pow2 (expo q) / ?u" by (simp add: pow2_diff [symmetric])
  also from expo_bounds [OF assms(1)] u have "\<dots> \<le> q / ?u"
    by (simp add: divide_right_mono)
  finally have "of_int (2 ^ 52) \<le> q / ?u" by (simp add: pow2_def)
  then have "2 ^ 52 \<le> round_even (q / ?u)" by (rule round_even_ge)
  then have "(of_int (2 ^ 52) :: rat) \<le> of_int (round_even (q / ?u))"
    by (simp only: of_int_le_iff)
  then have "of_int (2 ^ 52) * ?u \<le> rnd_mag q"
    using u assms(2) by (simp add: rnd_mag_def Let_def max_def)
  moreover have "of_int (2 ^ 52) * ?u = pow2 (expo q)" by (rule scale_52)
  ultimately show ?thesis by (simp only:)
qed

lemma rnd_mag_mono:
  assumes "0 < x" and "x \<le> y"
  shows "rnd_mag x \<le> rnd_mag y"
proof -
  from assms have y: "0 < y" by simp
  let ?ex = "max (expo x) (- 1022)"
  let ?ey = "max (expo y) (- 1022)"
  from expo_mono [OF assms] have le: "?ex \<le> ?ey" by simp
  show ?thesis
  proof (cases "?ex = ?ey")
    case True
    let ?u = "pow2 (?ey - 52)"
    have u: "0 < ?u" by (rule pow2_pos)
    from assms(2) u have "x / ?u \<le> y / ?u" by (simp add: divide_right_mono)
    then have "round_even (x / ?u) \<le> round_even (y / ?u)" by (rule round_even_mono)
    then have "(of_int (round_even (x / ?u)) :: rat) \<le> of_int (round_even (y / ?u))"
      by (simp only: of_int_le_iff)
    with u have "of_int (round_even (x / ?u)) * ?u \<le> of_int (round_even (y / ?u)) * ?u"
      by (simp add: mult_right_mono)
    then show ?thesis unfolding rnd_mag_def Let_def True .
  next
    case False
    with le have lt: "?ex < ?ey" by linarith
    then have ey: "- 1022 \<le> expo y" "?ey = expo y" by linarith+
    have "rnd_mag x \<le> pow2 (?ex + 1)" by (rule rnd_mag_upper [OF assms(1)])
    also from lt have "\<dots> \<le> pow2 ?ey" by (intro pow2_mono) linarith
    also have "\<dots> \<le> rnd_mag y" unfolding ey(2) by (rule rnd_mag_lower [OF y ey(1)])
    finally show ?thesis .
  qed
qed

lemma rnd_unfold:
  assumes "q \<noteq> 0" and "e = max (expo \<bar>q\<bar>) (- 1022)"
  shows "rnd q =
     (if 1024 \<le> e then inf_of_sign q
      else if e = 1023 \<and> 2 ^ 53 \<le> round_even (\<bar>q\<bar> / pow2 (e - 52)) then inf_of_sign q
      else Fin (sgn q * of_int (round_even (\<bar>q\<bar> / pow2 (e - 52))) * pow2 (e - 52)))"
  unfolding rnd_def Let_def assms(2) using assms(1) by (simp only: if_False)

lemma rnd_pos:
  assumes "0 < q"
  shows "rnd q = (if pow2 1024 \<le> rnd_mag q then PInf else Fin (rnd_mag q))"
proof -
  define e where "e = max (expo q) (- 1022)"
  define n where "n = round_even (q / pow2 (e - 52))"
  have u: "0 < pow2 (e - 52)" by (rule pow2_pos)
  have mag: "rnd_mag q = of_int n * pow2 (e - 52)"
    by (simp add: rnd_mag_def Let_def e_def n_def)
  from assms have q: "\<bar>q\<bar> = q" "sgn q = 1" "q \<noteq> 0" "inf_of_sign q = PInf"
    by (simp_all add: inf_of_sign_def)
  have e: "e = max (expo \<bar>q\<bar>) (- 1022)" by (simp add: e_def q)
  note unf = rnd_unfold [OF q(3) e, unfolded q, folded n_def]
  consider "1024 \<le> e" | "e = 1023" "2 ^ 53 \<le> n" | "e = 1023" "n < 2 ^ 53" | "e < 1023"
    by linarith
  then show ?thesis
  proof cases
    case 1
    then have eq: "- 1022 \<le> expo q" "e = expo q" unfolding e_def by linarith+
    have "pow2 1024 \<le> pow2 e" using 1 by (intro pow2_mono)
    also have "\<dots> \<le> rnd_mag q" unfolding eq(2) by (rule rnd_mag_lower [OF assms eq(1)])
    finally have "pow2 1024 \<le> rnd_mag q" .
    with 1 show ?thesis by (simp add: unf mag)
  next
    case 2
    from 2(2) have "(of_int (2 ^ 53) :: rat) \<le> of_int n" by (simp only: of_int_le_iff)
    with u have "of_int (2 ^ 53) * pow2 (e - 52) \<le> rnd_mag q"
      by (simp add: mag mult_right_mono)
    moreover have "of_int (2 ^ 53) * pow2 (e - 52) = pow2 1024"
      using scale_53 [of e] by (simp add: 2(1))
    ultimately have "pow2 1024 \<le> rnd_mag q" by (simp only:)
    with 2 show ?thesis by (simp add: unf mag)
  next
    case 3
    from 3(2) have "(of_int n :: rat) < of_int (2 ^ 53)" by (simp only: of_int_less_iff)
    with u have "rnd_mag q < of_int (2 ^ 53) * pow2 (e - 52)"
      by (simp add: mag mult_strict_right_mono)
    moreover have "of_int (2 ^ 53) * pow2 (e - 52) = pow2 1024"
      using scale_53 [of e] by (simp add: 3(1))
    ultimately have "\<not> pow2 1024 \<le> rnd_mag q" by (simp only: not_le)
    with 3 show ?thesis by (simp add: unf mag)
  next
    case 4
    have "rnd_mag q \<le> pow2 (e + 1)" unfolding e_def by (rule rnd_mag_upper [OF assms])
    also from 4 have "\<dots> < pow2 1024" by (intro pow2_strict_mono) simp
    finally have "\<not> pow2 1024 \<le> rnd_mag q" by simp
    with 4 show ?thesis by (simp add: unf mag)
  qed
qed

lemma rnd_mag_pos:
  assumes "pow2 (- 1074) \<le> d"
  shows "0 < rnd_mag d"
proof -
  from assms pow2_pos [of "- 1074"] have d: "0 < d" by linarith
  show ?thesis
  proof (cases "- 1022 \<le> expo d")
    case True
    from rnd_mag_lower [OF d True] pow2_pos [of "expo d"] show ?thesis by linarith
  next
    case False
    then have e: "max (expo d) (- 1022) - 52 = - 1074" by simp
    from assms pow2_pos [of "- 1074"] have "of_int 1 \<le> d / pow2 (- 1074)"
      by (simp add: le_divide_eq)
    then have "1 \<le> round_even (d / pow2 (- 1074))" by (rule round_even_ge)
    then have "(of_int 1 :: rat) \<le> of_int (round_even (d / pow2 (- 1074)))"
      by (simp only: of_int_le_iff)
    then have "0 < (of_int (round_even (d / pow2 (- 1074))) :: rat)" by simp
    with pow2_pos [of "- 1074"] show ?thesis
      by (simp add: rnd_mag_def Let_def e)
  qed
qed

text \<open>Every double is a multiple of the smallest subnormal.\<close>

lemma rnd_grid:
  assumes "rnd q = Fin r"
  shows "\<exists>k::int. r = of_int k * pow2 (- 1074)"
proof (cases "q = 0")
  case True
  with assms have "r = of_int 0 * pow2 (- 1074)" by (simp add: rnd_def)
  then show ?thesis by blast
next
  case False
  let ?e = "max (expo \<bar>q\<bar>) (- 1022)"
  let ?n = "round_even (\<bar>q\<bar> / pow2 (?e - 52))"
  from assms False have r: "r = sgn q * of_int ?n * pow2 (?e - 52)"
    by (simp add: rnd_def Let_def inf_of_sign_def split: if_splits)
  have "pow2 (?e - 52) = pow2 (?e + 1022) * pow2 (- 1074)"
    by (simp add: pow2_add [symmetric])
  also have "pow2 (?e + 1022) = of_int (2 ^ nat (?e + 1022))" by (rule pow2_nat) simp
  finally have u: "pow2 (?e - 52) = of_int (2 ^ nat (?e + 1022)) * pow2 (- 1074)" .
  have "sgn q = of_int (sgn \<lfloor>q\<rfloor>) \<or> sgn q = of_int 1 \<or> sgn q = of_int (- 1)"
    by (cases "0 < q") (auto simp: sgn_if)
  then obtain s :: int where s: "sgn q = of_int s" by blast
  have "r = of_int (s * ?n * 2 ^ nat (?e + 1022)) * pow2 (- 1074)"
    unfolding r s u by simp
  then show ?thesis by blast
qed

lemma grid_gap:
  assumes "a = of_int k * pow2 (- 1074)" and "m = of_int j * pow2 (- 1074)" and "a < m"
  shows "pow2 (- 1074) \<le> m - a"
proof -
  from assms pow2_pos [of "- 1074"] have "k < j" by (simp add: mult_less_cancel_right)
  then have "1 \<le> j - k" by simp
  then have "(of_int 1 :: rat) \<le> of_int (j - k)" by (simp only: of_int_le_iff)
  then have "1 * pow2 (- 1074) \<le> of_int (j - k) * pow2 (- 1074)"
    using pow2_pos [of "- 1074"] by (intro mult_right_mono) simp_all
  then show ?thesis by (simp add: assms algebra_simps)
qed

lemma rnd_zero: "rnd 0 = Fin 0"
  by (simp add: rnd_def)

lemma rnd_mag_1: "rnd_mag 1 = 1"
  by code_simp

lemma rnd_mag_100: "rnd_mag 100 = 100"
  by code_simp

lemma rnd_bounded:
  assumes "0 \<le> x" and "x \<le> B" and "rnd_mag B = B" and "B < pow2 1024"
  shows "\<exists>r. rnd x = Fin r \<and> 0 \<le> r \<and> r \<le> B"
proof (cases "x = 0")
  case True
  with assms show ?thesis by (simp add: rnd_zero)
next
  case False
  with assms(1) have x: "0 < x" by simp
  from rnd_mag_mono [OF x assms(2)] assms(3,4) have "rnd_mag x \<le> B" "rnd_mag x < pow2 1024"
    by simp_all
  with rnd_mag_nonneg [OF x] show ?thesis by (simp add: rnd_pos [OF x])
qed

text \<open>
  The ratio of a value within the bounds: no step leaves \<open>0..100\<close>, as long as
  \<open>max - min\<close> itself is finite.
\<close>

lemma in_range_ratio:
  assumes a: "a = of_int k * pow2 (- 1074)" and m: "m = of_int j * pow2 (- 1074)"
    and am: "a < m" and ac: "a \<le> c" and cm: "c \<le> m"
    and fin: "js_sub (Fin m) (Fin a) \<noteq> PInf"
  shows "\<exists>r. js_mul (js_div (js_sub (Fin c) (Fin a)) (js_sub (Fin m) (Fin a))) (Fin 100) = Fin r
     \<and> 0 \<le> r \<and> r \<le> 100"
proof -
  from am have d: "0 < m - a" by simp
  from grid_gap [OF a m am] have "0 < rnd_mag (m - a)" by (rule rnd_mag_pos)
  moreover from fin have "\<not> pow2 1024 \<le> rnd_mag (m - a)"
    by (simp add: rnd_pos [OF d] split: if_splits)
  ultimately obtain b where b: "rnd (m - a) = Fin b" "0 < b" "b < pow2 1024"
    "b = rnd_mag (m - a)"
    by (simp add: rnd_pos [OF d])
  have "\<exists>n. rnd (c - a) = Fin n \<and> 0 \<le> n \<and> n \<le> b"
  proof (cases "c = a")
    case True
    with b(2) show ?thesis by (simp add: rnd_zero)
  next
    case False
    with ac have x: "0 < c - a" by simp
    from cm have "c - a \<le> m - a" by simp
    from rnd_mag_mono [OF x this] b have "rnd_mag (c - a) \<le> b" "rnd_mag (c - a) < pow2 1024"
      by simp_all
    with rnd_mag_nonneg [OF x] show ?thesis by (simp add: rnd_pos [OF x])
  qed
  then obtain n where n: "rnd (c - a) = Fin n" "0 \<le> n" "n \<le> b" by blast
  have one: "(1::rat) < pow2 1024"
    using pow2_strict_mono [of 0 1024] by (simp add: pow2_def)
  from n b(2) have "0 \<le> n / b" "n / b \<le> 1" by simp_all
  from rnd_bounded [OF this rnd_mag_1 one] obtain y where y: "rnd (n / b) = Fin y" "0 \<le> y"
    "y \<le> 1" by blast
  have hundred: "(100::rat) < pow2 1024"
    using pow2_strict_mono [of 7 1024] by (simp add: pow2_def)
  from y have "0 \<le> y * 100" "y * 100 \<le> 100" by simp_all
  from rnd_bounded [OF this rnd_mag_100 hundred] obtain r where r: "rnd (y * 100) = Fin r"
    "0 \<le> r" "r \<le> 100" by blast
  from b(2) have "js_mul (js_div (js_sub (Fin c) (Fin a)) (js_sub (Fin m) (Fin a))) (Fin 100)
     = Fin r"
    by (simp add: n(1) b(1) js_div_def js_mul_def y(1) r(1))
  with r show ?thesis by blast
qed

text \<open>The numbers that \<open>Number\<close> yields are doubles.\<close>

lemma unsigned_decimal_grid:
  "unsigned_decimal s = Fin r \<Longrightarrow> \<exists>k::int. r = of_int k * pow2 (- 1074)"
  by (auto simp: unsigned_decimal_def Let_def split: if_splits option.splits prod.splits
      dest: rnd_grid)

lemma radix_literal_grid:
  "radix_literal b s = Fin r \<Longrightarrow> \<exists>k::int. r = of_int k * pow2 (- 1074)"
  by (auto simp: radix_literal_def split: if_splits option.splits dest: rnd_grid)

lemma js_neg_Fin: "js_neg x = Fin r \<Longrightarrow> x = Fin (- r)"
  by (cases x) auto

lemma zero_grid: "\<exists>k::int. (0::rat) = of_int k * pow2 (- 1074)"
  by (rule exI [of _ 0]) simp

lemma neg_grid:
  "\<exists>k::int. - r = of_int k * pow2 (- 1074) \<Longrightarrow> \<exists>k::int. r = of_int k * pow2 (- 1074)"
proof -
  assume "\<exists>k::int. - r = of_int k * pow2 (- 1074)"
  then obtain k :: int where "- r = of_int k * pow2 (- 1074)" by blast
  then have "r = of_int (- k) * pow2 (- 1074)" by simp
  then show ?thesis by blast
qed

lemma StringToNumber_grid:
  assumes "StringToNumber s = Fin r"
  shows "\<exists>k::int. r = of_int k * pow2 (- 1074)"
proof (cases "trim s")
  case Nil
  with assms show ?thesis by (simp add: StringToNumber_def zero_grid)
next
  case (Cons c t)
  from assms consider "unsigned_decimal t = Fin r" | "js_neg (unsigned_decimal t) = Fin r"
    | "radix_literal 16 (tl t) = Fin r" | "radix_literal 8 (tl t) = Fin r"
    | "radix_literal 2 (tl t) = Fin r" | "unsigned_decimal (c # t) = Fin r"
    by (simp add: StringToNumber_def Cons split: if_splits)
  then show ?thesis
  proof cases
    case 2
    then show ?thesis by (blast dest: js_neg_Fin unsigned_decimal_grid intro: neg_grid)
  qed (blast dest: unsigned_decimal_grid radix_literal_grid)+
qed

lemma or_zero_Number_grid:
  assumes "or_zero (Number x) = Fin r"
  shows "\<exists>k::int. r = of_int k * pow2 (- 1074)"
proof (cases "r = 0")
  case True
  then show ?thesis by (simp add: zero_grid)
next
  case False
  with assms have n: "Number x = Fin r" by (simp add: or_zero_def split: if_splits)
  then show ?thesis by (cases x) (simp_all add: StringToNumber_grid)
qed

text \<open>
  The arithmetic is the one of the doubles, not of the rationals: \<open>0.07\<close> is the double
  next to it, and its product with \<open>100\<close> is \<open>7 + 2 ^ -50\<close>, which JavaScript prints as
  \<open>7.000000000000001\<close>.
\<close>

lemma rounding_example:
  "StringToNumber ''0.07'' = Fin (1261007895663739 / 18014398509481984) \<and>
   js_mul (StringToNumber ''0.07'') (Fin 100) = Fin (7881299347898369 / 1125899906842624)"
  by code_simp

lemma expo_pow2: "expo (pow2 k) = k"
proof -
  from expo_bounds [OF pow2_pos [of k]]
  have "pow2 (expo (pow2 k)) \<le> pow2 k" "pow2 k < pow2 (expo (pow2 k) + 1)" by simp_all
  then have "\<not> pow2 k < pow2 (expo (pow2 k))" "pow2 k < pow2 (expo (pow2 k) + 1)"
    by simp_all
  then have "\<not> k < expo (pow2 k)" "k < expo (pow2 k) + 1"
    unfolding pow2_less_iff by simp_all
  then show ?thesis by linarith
qed

lemma rnd_overflow: "rnd (pow2 1024) = PInf"
proof -
  have "pow2 (expo (pow2 1024)) \<le> rnd_mag (pow2 1024)"
    by (rule rnd_mag_lower) (simp_all add: pow2_pos expo_pow2)
  then show ?thesis by (simp add: rnd_pos [OF pow2_pos] expo_pow2)
qed

text \<open>
  The bound needs a finite \<open>max - min\<close>: with \<open>min = - 2 ^ 1023\<close> and
  \<open>current = max = 2 ^ 1023\<close>, three doubles, both differences overflow and the ratio is
  \<open>NaN\<close>.
\<close>

lemma ratio_overflow:
  "progress_ratio (Fin (pow2 1023)) (Fin (- pow2 1023)) (Fin (pow2 1023)) = Percent NaN"
proof -
  have "pow2 1023 - - pow2 1023 = pow2 1024"
    using pow2_add [of 1 1023] by (simp add: pow2_def)
  then have "js_sub (Fin (pow2 1023)) (Fin (- pow2 1023)) = PInf" by (simp add: rnd_overflow)
  moreover have "js_less (Fin (- pow2 1023)) (Fin (pow2 1023))"
    using pow2_pos [of 1023] by simp
  ultimately show ?thesis by (simp add: progress_ratio_def js_div_def js_mul_def)
qed

subsection \<open>The nearest slider\<close>

lemma closest_Nil: "closest d [] c = (if has_class d c [] then Some [] else None)"
  by (simp add: closest_def)

lemma closest_snoc:
  "closest d (p @ [i]) c = (if has_class d c (p @ [i]) then Some (p @ [i]) else closest d p c)"
  by (simp add: closest_def)

lemma closest_self: "has_class d c p \<Longrightarrow> closest d p c = Some p"
  by (cases p rule: rev_cases) (simp_all add: closest_Nil closest_snoc)

lemma closest_has_class: "closest d t c = Some b \<Longrightarrow> has_class d c b"
  by (auto simp: closest_def find_Some_iff)

lemma has_class_valid: "has_class d c p \<Longrightarrow> p \<in> set (paths d)"
  by (auto simp: paths_mem has_class_def split: option.splits)

text \<open>
  Inside a container that holds no other slider, the nearest slider of every element is
  the container.
\<close>

lemma closest_in_container:
  assumes "has_class d ''slider'' b" and "getElementsByClassName d b ''slider'' = []"
  shows "closest d (b @ s) ''slider'' = Some b"
proof (induction s rule: rev_induct)
  case Nil
  from assms(1) show ?case by (simp add: closest_self)
next
  case (snoc i s)
  have "\<not> has_class d ''slider'' (b @ s @ [i])"
  proof
    assume h: "has_class d ''slider'' (b @ s @ [i])"
    then have "b @ s @ [i] \<in> set (getElementsByClassName d b ''slider'')"
      by (simp add: getElementsByClassName_def descendants_def has_class_valid
          strict_prefix_def)
    with assms(2) show False by simp
  qed
  with snoc show ?case using closest_snoc [of d "b @ s" i "''slider''"] by simp
qed

section \<open>The claims of the specification\<close>

subsection \<open>C1\<close>

text \<open>
  Claim C1. On every call whose target lies in a slider container \<open>b\<close>, the fields
  \<open>value\<close>, \<open>min\<close> and \<open>max\<close> of the target are converted to numbers, a field that is
  not numeric or is missing counting as \<open>0\<close>, and the value written to the property
  \<open>--slider-progress\<close> of \<open>b\<close> is \<open>r%\<close> with \<open>r = (current - min) / (max - min) * 100\<close>
  when \<open>max > min\<close> and \<open>r = 0\<close> when \<open>max <= min\<close>; one of the two cases always holds.
\<close>

theorem onSliderInput_progress:
  assumes "elem_at d t = Some target" and "closest d t ''slider'' = Some b"
  shows "\<exists>d' c mn mx.
     onSliderInput d t = Inr d' \<and>
     c = spec_number (prop_value target) \<and>
     mn = spec_number (prop_min target) \<and>
     mx = spec_number (prop_max target) \<and>
     (js_less mn mx \<or> js_le mx mn) \<and>
     progress_sink d' b =
       Some (Percent (if js_le mx mn then Fin 0
                      else js_mul (js_div (js_sub c mn) (js_sub mx mn)) (Fin 100)))"
proof -
  from onSliderInput_returns [OF assms(1)] obtain d' where run: "onSliderInput d t = Inr d'"
    by blast
  have nn: "lower_bound target \<noteq> NaN" "upper_bound target \<noteq> NaN"
    by (simp_all add: lower_bound_def upper_bound_def or_zero_not_NaN)
  have "progress_sink d' b =
     Some (Percent (if js_le (upper_bound target) (lower_bound target) then Fin 0
        else js_mul (js_div (js_sub (current target) (lower_bound target))
               (js_sub (upper_bound target) (lower_bound target))) (Fin 100)))"
    using js_less_or_le [OF nn] js_less_not_le [of "lower_bound target" "upper_bound target"]
    by (auto simp: sink_onSliderInput [OF assms run] progress_ratio_def)
  with run js_less_or_le [OF nn] show ?thesis
    by (simp add: current_def lower_bound_def upper_bound_def or_zero_spec)
qed

text \<open>
  The slider with the value \<open>25\<close> in \<open>0..100\<close> gets \<open>25%\<close>, and a control with the
  degenerate range \<open>min = max = 0\<close> and the value \<open>50\<close> gets \<open>0%\<close>.
\<close>

theorem onSliderInput_progress_witness:
  "(\<exists>d'. onSliderInput (native_doc (range_control ''25'' ''0'' ''100'')) [0, 0] = Inr d' \<and>
      progress_sink d' [0] = Some (Percent (Fin 25))) \<and>
   (\<exists>d'. onSliderInput (native_doc (number_control ''50'' ''0'' ''0'')) [0, 0] = Inr d' \<and>
      progress_sink d' [0] = Some (Percent (Fin 0)))"
proof -
  let ?T = "range_control ''25'' ''0'' ''100''"
  let ?U = "number_control ''50'' ''0'' ''0''"
  have t: "elem_at (native_doc (range_control ''25'' ''0'' ''100'')) [0, 0] = Some ?T" by code_simp
  have b: "closest (native_doc (range_control ''25'' ''0'' ''100'')) [0, 0] ''slider'' = Some [0]" by code_simp
  have v: "spec_number (prop_value ?T) = Fin 25" "spec_number (prop_min ?T) = Fin 0"
    "spec_number (prop_max ?T) = Fin 100" by code_simp+
  have r: "js_mul (js_div (js_sub (Fin 25) (Fin 0)) (js_sub (Fin 100) (Fin 0))) (Fin 100) = Fin 25"
    by code_simp
  have t': "elem_at (native_doc (number_control ''50'' ''0'' ''0'')) [0, 0] = Some ?U" by code_simp
  have b': "closest (native_doc (number_control ''50'' ''0'' ''0'')) [0, 0] ''slider'' = Some [0]" by code_simp
  have v': "spec_number (prop_value ?U) = Fin 50" "spec_number (prop_min ?U) = Fin 0"
    "spec_number (prop_max ?U) = Fin 0" by code_simp+
  from onSliderInput_progress [OF t b] r have 1: "\<exists>d'.
      onSliderInput (native_doc (range_control ''25'' ''0'' ''100'')) [0, 0] = Inr d' \<and>
      progress_sink d' [0] = Some (Percent (Fin 25))"
    by (auto simp: v js_le_def)
  from onSliderInput_progress [OF t' b'] have 2: "\<exists>d'.
      onSliderInput (native_doc (number_control ''50'' ''0'' ''0'')) [0, 0] = Inr d' \<and>
      progress_sink d' [0] = Some (Percent (Fin 0))"
    by (auto simp: v' js_le_def)
  from 1 2 show ?thesis by simp
qed

subsection \<open>C2\<close>

text \<open>
  Claim C2. After a call, every marker of the resolved collection carries the class
  \<open>lower\<close> if and only if its position, converted by \<open>Number\<close>, is strictly below the
  current value, whatever it carried before; its position is what it was, and a marker
  whose position equals the current value does not carry the class.
\<close>

theorem markers_flagged:
  assumes "elem_at d t = Some target" and "p \<in> set (markers d (resolve d t))"
  shows "\<exists>d' e e'.
     onSliderInput d t = Inr d' \<and> elem_at d p = Some e \<and> elem_at d' p = Some e' \<and>
     position (resolve d t) e' = position (resolve d t) e \<and>
     (''lower'' \<in> set (classes e') \<longleftrightarrow>
        js_less (Number (position (resolve d t) e)) (current target)) \<and>
     (Number (position (resolve d t) e) = current target \<longrightarrow> ''lower'' \<notin> set (classes e'))"
proof -
  from onSliderInput_returns [OF assms(1)] obtain d' where run: "onSliderInput d t = Inr d'"
    by blast
  from markers_valid [OF assms(2)] obtain e where e: "elem_at d p = Some e" by blast
  show ?thesis
    using assms(2) js_less_irrefl [of "current target"]
    by (auto simp: run e elem_at_onSliderInput [OF assms(1) run] classes_sync_elem
        sim_elem_position [OF sim_elem_sync_elem])
qed

text \<open>
  With the value \<open>25\<close>, the marker \<open>0\<close> is flagged, the marker \<open>25\<close> is not, and the
  stale flag of the marker \<open>75\<close> is gone.
\<close>

theorem markers_flagged_witness:
  "\<exists>d' e0 e1 e3.
     onSliderInput (native_doc (range_control ''25'' ''0'' ''100'')) [0, 0] = Inr d' \<and>
     elem_at d' [0, 1, 0] = Some e0 \<and> ''lower'' \<in> set (classes e0) \<and>
     elem_at d' [0, 1, 1] = Some e1 \<and> ''lower'' \<notin> set (classes e1) \<and>
     elem_at d' [0, 1, 3] = Some e3 \<and> ''lower'' \<notin> set (classes e3)"
proof -
  let ?D = "native_doc (range_control ''25'' ''0'' ''100'')"
  let ?T = "range_control ''25'' ''0'' ''100''"
  have t: "elem_at ?D [0, 0] = Some ?T" by code_simp
  have m: "[0, 1, 0] \<in> set (markers ?D (resolve ?D [0, 0]))"
    "[0, 1, 1] \<in> set (markers ?D (resolve ?D [0, 0]))"
    "[0, 1, 3] \<in> set (markers ?D (resolve ?D [0, 0]))" by code_simp+
  have e: "elem_at ?D [0, 1, 0] = Some (elt ''option'' [(''value'', ''0'')] [])"
    "elem_at ?D [0, 1, 1] = Some (elt ''option'' [(''value'', ''25'')] [])"
    "elem_at ?D [0, 1, 3] = Some (elt ''option'' [(''value'', ''75'')] [''lower''])"
    by code_simp+
  have l: "js_less (Number (position (resolve ?D [0, 0]) (elt ''option'' [(''value'', ''0'')] [])))
       (current ?T)"
    "\<not> js_less (Number (position (resolve ?D [0, 0]) (elt ''option'' [(''value'', ''25'')] [])))
       (current ?T)"
    "\<not> js_less (Number (position (resolve ?D [0, 0])
         (elt ''option'' [(''value'', ''75'')] [''lower''])))
       (current ?T)"
    by code_simp+
  from markers_flagged [OF t m(1)] markers_flagged [OF t m(2)] markers_flagged [OF t m(3)] e l
  show ?thesis by auto
qed

subsection \<open>C3\<close>

text \<open>
  Claim C3. A call updates the markers of the one collection that \<open>resolve\<close> yields (the
  list of the control, otherwise the first \<open>datalist\<close> of the container, otherwise the
  first custom collection of the container) and leaves the class list of every other
  element as it was, so that nothing is flagged or unflagged when there is no
  collection; the progress sink of the container is written in every case, and no
  style changes when there is no container.
\<close>

theorem resolution_order:
  assumes "elem_at d t = Some target" and "elem_at d p = Some e"
  shows "\<exists>d' e'.
     onSliderInput d t = Inr d' \<and> elem_at d' p = Some e' \<and>
     (if p \<in> set (markers d (resolve d t))
      then ''lower'' \<in> set (classes e') \<longleftrightarrow>
             js_less (Number (position (resolve d t) e)) (current target)
      else classes e' = classes e) \<and>
     (case closest d t ''slider'' of
        None \<Rightarrow> style e' = style e
      | Some b \<Rightarrow>
          progress_sink d' b =
            Some (progress_ratio (current target) (lower_bound target) (upper_bound target)))"
proof -
  from onSliderInput_returns [OF assms(1)] obtain d' where run: "onSliderInput d t = Inr d'"
    by blast
  show ?thesis
    by (cases "closest d t ''slider''")
       (simp_all add: run assms(2) elem_at_onSliderInput [OF assms(1) run] classes_sync_elem
          classes_sync_elem_other style_sync_elem_other sink_onSliderInput [OF assms(1) _ run])
qed

text \<open>
  In the document with two custom collections, a call on the first control flags the
  marker \<open>0\<close> of its own collection, leaves the class list of a marker of the other
  slider alone, and writes \<open>50%\<close>.
\<close>

theorem resolution_order_witness:
  "\<exists>d' e' e''.
     onSliderInput custom_doc [0, 0] = Inr d' \<and>
     elem_at d' [0, 1, 0] = Some e' \<and> ''lower'' \<in> set (classes e') \<and>
     elem_at d' [1, 1, 1] = Some e'' \<and> classes e'' = [''option'', ''lower''] \<and>
     progress_sink d' [0] = Some (Percent (Fin 50))"
proof -
  let ?T = "range_control ''50'' ''0'' ''100''"
  let ?E = "elt ''div'' [(''value'', ''0'')] [''option'']"
  let ?F = "elt ''div'' [(''value'', ''5'')] [''option'', ''lower'']"
  have t: "elem_at custom_doc [0, 0] = Some ?T" by code_simp
  have e: "elem_at custom_doc [0, 1, 0] = Some ?E" by code_simp
  have f: "elem_at custom_doc [1, 1, 1] = Some ?F" by code_simp
  have m: "[0, 1, 0] \<in> set (markers custom_doc (resolve custom_doc [0, 0]))"
    "[1, 1, 1] \<notin> set (markers custom_doc (resolve custom_doc [0, 0]))" by code_simp+
  have c: "closest custom_doc [0, 0] ''slider'' = Some [0]" by code_simp
  have l: "js_less (Number (position (resolve custom_doc [0, 0]) ?E)) (current ?T)" by code_simp
  have r: "progress_ratio (current ?T) (lower_bound ?T) (upper_bound ?T) = Percent (Fin 50)"
    by code_simp
  have cf: "classes ?F = [''option'', ''lower'']" by code_simp
  from resolution_order [OF t e] resolution_order [OF t f] m c l r cf show ?thesis
    by auto
qed

subsection \<open>C4\<close>

text \<open>
  Claim C4, amended. For finite \<open>current\<close>, \<open>min\<close> and \<open>max\<close> the value written is \<open>0%\<close>
  when \<open>max <= min\<close>. When \<open>max > min\<close>, \<open>min <= current <= max\<close> and the difference
  \<open>max - min\<close> is a finite double, it is \<open>r%\<close> with a finite \<open>r\<close> and \<open>0 <= r <= 100\<close>.
  Nothing is claimed for a value outside the bounds, which the script does not clamp, nor
  for a difference that overflows (lemma \<open>ratio_overflow\<close>).
\<close>

theorem progress_within_bounds:
  assumes "elem_at d t = Some target" and "closest d t ''slider'' = Some b"
    and "current target = Fin c" and "lower_bound target = Fin a"
    and "upper_bound target = Fin m"
  shows "\<exists>d' r.
     onSliderInput d t = Inr d' \<and> progress_sink d' b = Some (Percent r) \<and>
     (m \<le> a \<longrightarrow> r = Fin 0) \<and>
     (a < m \<and> a \<le> c \<and> c \<le> m \<and> js_sub (Fin m) (Fin a) \<noteq> PInf \<longrightarrow>
        (\<exists>q. r = Fin q \<and> 0 \<le> q \<and> q \<le> 100))"
proof -
  from onSliderInput_returns [OF assms(1)] obtain d' where run: "onSliderInput d t = Inr d'"
    by blast
  let ?r = "if a < m
    then js_mul (js_div (js_sub (Fin c) (Fin a)) (js_sub (Fin m) (Fin a))) (Fin 100)
    else Fin 0"
  have sink: "progress_sink d' b = Some (Percent ?r)"
    by (simp add: sink_onSliderInput [OF assms(1,2) run] assms(3-5) progress_ratio_def)
  from assms(4) obtain k :: int where a: "a = of_int k * pow2 (- 1074)"
    unfolding lower_bound_def by (blast dest: or_zero_Number_grid)
  from assms(5) obtain j :: int where m: "m = of_int j * pow2 (- 1074)"
    unfolding upper_bound_def by (blast dest: or_zero_Number_grid)
  have 1: "m \<le> a \<longrightarrow> ?r = Fin 0" by simp
  have 2: "a < m \<and> a \<le> c \<and> c \<le> m \<and> js_sub (Fin m) (Fin a) \<noteq> PInf \<longrightarrow>
        (\<exists>q. ?r = Fin q \<and> 0 \<le> q \<and> q \<le> 100)"
    using in_range_ratio [OF a m] by auto
  from run sink 1 2 show ?thesis by blast
qed

text \<open>
  The claim as the specification states it fails: on a control of type \<open>number\<close>, whose
  value the browser does not keep in range, a value of \<open>150\<close> in \<open>0..100\<close> is written as
  \<open>150%\<close>, and a value of \<open>-50\<close> as \<open>-50%\<close>.
\<close>

theorem progress_not_clamped:
  "sink_after (native_doc (number_control ''150'' ''0'' ''100'')) [0, 0] [0] = Some (Percent (Fin 150)) \<and>
   sink_after (native_doc (number_control ''-50'' ''0'' ''100'')) [0, 0] [0] = Some (Percent (Fin (- 50)))"
  by code_simp

text \<open>
  The value \<open>25\<close> in \<open>0..100\<close>.
\<close>

theorem progress_within_bounds_witness:
  "\<exists>d' r. onSliderInput (native_doc (range_control ''25'' ''0'' ''100'')) [0, 0] = Inr d' \<and>
     progress_sink d' [0] = Some (Percent (Fin r)) \<and> 0 \<le> r \<and> r \<le> 100"
proof -
  let ?T = "range_control ''25'' ''0'' ''100''"
  have t: "elem_at (native_doc (range_control ''25'' ''0'' ''100'')) [0, 0] = Some ?T" by code_simp
  have b: "closest (native_doc (range_control ''25'' ''0'' ''100'')) [0, 0] ''slider'' = Some [0]" by code_simp
  have v: "current ?T = Fin 25" "lower_bound ?T = Fin 0" "upper_bound ?T = Fin 100"
    by code_simp+
  have f: "js_sub (Fin 100) (Fin 0) \<noteq> PInf" by code_simp
  from progress_within_bounds [OF t b v] f show ?thesis by auto
qed

subsection \<open>C5\<close>

text \<open>
  Claim C5, amended. \<open>onSliderInput\<close> does not throw when its target is an element, and
  \<open>bodyOnLoad\<close> completes without throwing on a document in which every slider contains
  an \<open>input\<close> element.
\<close>

theorem no_exception_on_required_structure:
  "(elem_at d t = Some target \<longrightarrow> (\<exists>d'. onSliderInput d t = Inr d')) \<and>
   (every_slider_has_input (doc pg) \<longrightarrow> (\<exists>pg'. bodyOnLoad pg = Inr pg'))"
proof (intro conjI impI)
  assume "elem_at d t = Some target"
  then show "\<exists>d'. onSliderInput d t = Inr d'" by (rule onSliderInput_returns)
next
  assume "every_slider_has_input (doc pg)"
  then have "list_all (\<lambda>s. first_input (doc pg) s \<noteq> None)
     (document_getElementsByClassName (doc pg) ''slider'')"
    by (simp add: every_slider_has_input_def)
  from bodyOnLoad_loop_ok [OF this] show "\<exists>pg'. bodyOnLoad pg = Inr pg'"
    unfolding bodyOnLoad_def by blast
qed

text \<open>
  The claim as the specification states it fails: on a document whose first slider has
  no \<open>input\<close>, \<open>bodyOnLoad\<close> throws a \<open>TypeError\<close> at that slider, before it reaches the
  second one.
\<close>

theorem bodyOnLoad_throws_without_input:
  "bodyOnLoad \<lparr>doc = broken_doc, listeners = []\<rparr> =
     Inl (TypeError, \<lparr>doc = broken_doc, listeners = []\<rparr>)"
  by code_simp

text \<open>
  The document with two complete sliders.
\<close>

theorem no_exception_on_required_structure_witness:
  "(\<exists>d'. onSliderInput custom_doc [0, 0] = Inr d') \<and>
   (\<exists>pg'. bodyOnLoad \<lparr>doc = custom_doc, listeners = []\<rparr> = Inr pg')"
proof -
  have t: "elem_at custom_doc [0, 0] =
     Some (range_control ''50'' ''0'' ''100'')" by code_simp
  have s: "every_slider_has_input custom_doc" by code_simp
  from no_exception_on_required_structure
    [of custom_doc "[0, 0]" _ "\<lparr>doc = custom_doc, listeners = []\<rparr>"]
  show ?thesis by (simp add: t s)
qed

subsection \<open>C6\<close>

text \<open>
  Claim C6. A second call on the same target, with nothing changed in between, returns
  the document of the first call: the progress sink and the marker flags are the same.
\<close>

theorem onSliderInput_idempotent:
  assumes "elem_at d t = Some target"
  shows "\<exists>d'. onSliderInput d t = Inr d' \<and> onSliderInput d' t = Inr d'"
proof -
  from onSliderInput_returns [OF assms] obtain d' where run: "onSliderInput d t = Inr d'"
    by blast
  with onSliderInput_fixpoint [OF assms run] show ?thesis by simp
qed

text \<open>
  The first example of the script, synchronised twice.
\<close>

theorem onSliderInput_idempotent_witness:
  "\<exists>d'. onSliderInput (native_doc (range_control ''25'' ''0'' ''100'')) [0, 0] = Inr d' \<and>
     onSliderInput d' [0, 0] = Inr d'"
proof -
  have t: "elem_at (native_doc (range_control ''25'' ''0'' ''100'')) [0, 0] =
      Some (range_control ''25'' ''0'' ''100'')" by code_simp
  from onSliderInput_idempotent [OF t] show ?thesis .
qed

subsection \<open>C7\<close>

text \<open>
  Claim C7, amended. A call whose target is an element never throws. Without a container
  no style is written, without a marker collection no class list changes, and without a
  container and without a list of the control the document is returned as it was.
\<close>

theorem onSliderInput_never_throws:
  assumes "elem_at d t = Some target"
  shows "\<exists>d'. onSliderInput d t = Inr d' \<and>
     (closest d t ''slider'' = None \<longrightarrow>
        (\<forall>p. map_option style (elem_at d' p) = map_option style (elem_at d p))) \<and>
     (resolve d t = NoMarkers \<longrightarrow>
        (\<forall>p. map_option classes (elem_at d' p) = map_option classes (elem_at d p))) \<and>
     (closest d t ''slider'' = None \<and> list_of d t = None \<longrightarrow> d' = d)"
proof -
  from onSliderInput_returns [OF assms] obtain d' where run: "onSliderInput d t = Inr d'"
    by blast
  have 1: "map_option style (elem_at d' p) = map_option style (elem_at d p)"
    if "closest d t ''slider'' = None" for p
    using that
    by (cases "elem_at d p")
       (simp_all add: elem_at_onSliderInput [OF assms run] style_sync_elem_other)
  have 2: "map_option classes (elem_at d' p) = map_option classes (elem_at d p)"
    if "resolve d t = NoMarkers" for p
    using that
    by (cases "elem_at d p")
       (simp_all add: elem_at_onSliderInput [OF assms run] classes_sync_elem_other)
  have 3: "d' = d" if "closest d t ''slider'' = None" "list_of d t = None"
    using run that by (simp add: onSliderInput_resolved [OF assms] resolve_def)
  show ?thesis
    by (rule exI [of _ d']) (use run 1 2 3 in auto)
qed

text \<open>
  The claim as the specification states it fails: a call with an event that has no target
  throws a \<open>TypeError\<close> at the first read of \<open>e.target.value\<close>.
\<close>

theorem onSliderInput_throws_without_target:
  "elem_at bare_doc [7] = None \<and> onSliderInput bare_doc [7] = Inl TypeError"
  by code_simp

text \<open>
  An \<open>input\<close> outside every slider, with a value that is no number: nothing changes.
\<close>

theorem onSliderInput_never_throws_witness:
  "onSliderInput bare_doc [0] = Inr bare_doc"
proof -
  have t: "elem_at bare_doc [0] = Some (input_elt ''text'' [] ''abc'')" by code_simp
  have c: "closest bare_doc [0] ''slider'' = None" by code_simp
  have l: "list_of bare_doc [0] = None" by code_simp
  from onSliderInput_never_throws [OF t] show ?thesis by (auto simp: c l)
qed

subsection \<open>C8\<close>

text \<open>
  Claim C8, amended. When the control has no list, its container \<open>b\<close> holds no \<open>datalist\<close>
  element, \<open>c\<close> is the first custom collection of \<open>b\<close> and no other slider lies inside
  \<open>b\<close>, a call flags exactly the elements of class \<open>option\<close> below \<open>c\<close>, each by its
  \<open>value\<close> attribute. These markers lie inside \<open>b\<close> and have \<open>b\<close> as their nearest
  slider, so that none of them belongs to another slider; the class list of every other
  element is unchanged, and an element outside \<open>b\<close> is not changed at all.
\<close>

theorem custom_collection_fallback:
  assumes "elem_at d t = Some target" and "list_of d t = None"
    and "closest d t ''slider'' = Some b"
    and "getElementsByTagName d b ''datalist'' = []"
    and "item0 (getElementsByClassName d b ''datalist'') = Some c"
    and "getElementsByClassName d b ''slider'' = []"
    and "elem_at d p = Some e"
  shows "\<exists>d' e'.
     onSliderInput d t = Inr d' \<and> elem_at d' p = Some e' \<and>
     (if p \<in> set (getElementsByClassName d c ''option'')
      then strict_prefix b p \<and> closest d p ''slider'' = Some b \<and>
           (''lower'' \<in> set (classes e') \<longleftrightarrow>
              js_less (Number (getAttribute e ''value'')) (current target))
      else classes e' = classes e) \<and>
     (if prefix b p then True else e' = e)"
proof -
  from onSliderInput_returns [OF assms(1)] obtain d' where run: "onSliderInput d t = Inr d'"
    by blast
  have "item0 (getElementsByTagName d b ''datalist'') = None"
    by (simp add: assms(4) item0_def)
  then have r: "resolve d t = CustomCollection c"
    by (simp add: resolve_def assms(2,3,5))
  have below: "strict_prefix b q" if "q \<in> set (getElementsByClassName d c ''option'')" for q
  proof -
    from assms(5) have "strict_prefix b c"
      by (auto dest: item0_mem getElementsByClassName_below)
    moreover from that have "strict_prefix c q" by (rule getElementsByClassName_below)
    ultimately show ?thesis by (rule prefix_order.less_trans)
  qed
  have own: "closest d q ''slider'' = Some b"
    if "q \<in> set (getElementsByClassName d c ''option'')" for q
  proof -
    from below [OF that] obtain s where "q = b @ s" by (auto simp: strict_prefix_def prefix_def)
    with closest_in_container [OF closest_has_class [OF assms(3)] assms(6)] show ?thesis
      by simp
  qed
  have out: "sync_elem v rr (Some b) (CustomCollection c)
      (getElementsByClassName d c ''option'') p e = e" if "\<not> prefix b p" for v rr
  proof (rule sync_elem_id)
    from that show "Some b \<noteq> Some p" by auto
    from that below [of p] show "p \<notin> set (getElementsByClassName d c ''option'')"
      by (auto simp: strict_prefix_def)
  qed
  show ?thesis
    using below [of p] own [of p]
    by (simp add: run elem_at_onSliderInput [OF assms(1) run] r assms(3,7) classes_sync_elem
        classes_sync_elem_other out)
qed

text \<open>
  The claim as the specification states it fails when a slider is nested in the
  container: the first element of class \<open>datalist\<close> inside the outer slider is the
  collection of the inner one. A call on the outer control flags the marker \<open>7\<close>, whose
  nearest slider is the inner one, and leaves the markers of the outer slider as they
  were: \<open>20\<close> without the flag and \<open>80\<close> with its stale flag.
\<close>

theorem first_datalist_of_nested_slider:
  "list_of nested_doc [0, 0] = None \<and>
   closest nested_doc [0, 0] ''slider'' = Some [0] \<and>
   getElementsByTagName nested_doc [0] ''datalist'' = [] \<and>
   item0 (getElementsByClassName nested_doc [0] ''datalist'') = Some [0, 1, 1] \<and>
   getElementsByClassName nested_doc [0, 1, 1] ''option'' = [ [0, 1, 1, 0] ] \<and>
   closest nested_doc [0, 1, 1, 0] ''slider'' = Some [0, 1] \<and>
   has_class nested_doc ''lower'' [0, 1, 1, 0] = False \<and>
   flag_after nested_doc [0, 0] [0, 1, 1, 0] = Some True \<and>
   flag_after nested_doc [0, 0] [0, 2, 0] = Some False \<and>
   flag_after nested_doc [0, 0] [0, 2, 1] = Some True"
  by code_simp

text \<open>
  A call on the first control of the document with two sliders flags the marker \<open>0\<close> of
  its own collection, clears the stale flag of the marker \<open>abc\<close>, and changes nothing in
  the second slider, whose stale marker stays as it is.
\<close>

theorem custom_collection_fallback_witness:
  "\<exists>d' e0 e2.
     onSliderInput custom_doc [0, 0] = Inr d' \<and>
     elem_at custom_doc [0, 1, 0] = Some (elt ''div'' [(''value'', ''0'')] [''option'']) \<and>
     elem_at d' [0, 1, 0] = Some e0 \<and> ''lower'' \<in> set (classes e0) \<and>
     closest custom_doc [0, 1, 0] ''slider'' = Some [0] \<and>
     elem_at d' [0, 1, 2] = Some e2 \<and> ''lower'' \<notin> set (classes e2) \<and>
     elem_at d' [1, 1, 1] = elem_at custom_doc [1, 1, 1]"
proof -
  let ?T = "range_control ''50'' ''0'' ''100''"
  let ?E0 = "elt ''div'' [(''value'', ''0'')] [''option'']"
  let ?E2 = "elt ''div'' [(''value'', ''abc'')] [''option'', ''lower'']"
  let ?F = "elt ''div'' [(''value'', ''5'')] [''option'', ''lower'']"
  have t: "elem_at custom_doc [0, 0] = Some ?T" by code_simp
  have l: "list_of custom_doc [0, 0] = None" by code_simp
  have b: "closest custom_doc [0, 0] ''slider'' = Some [0]" by code_simp
  have n: "getElementsByTagName custom_doc [0] ''datalist'' = []" by code_simp
  have c: "item0 (getElementsByClassName custom_doc [0] ''datalist'') = Some [0, 1]"
    by code_simp
  have s: "getElementsByClassName custom_doc [0] ''slider'' = []" by code_simp
  have e0: "elem_at custom_doc [0, 1, 0] = Some ?E0" by code_simp
  have e2: "elem_at custom_doc [0, 1, 2] = Some ?E2" by code_simp
  have f: "elem_at custom_doc [1, 1, 1] = Some ?F" by code_simp
  have m: "[0, 1, 0] \<in> set (getElementsByClassName custom_doc [0, 1] ''option'')"
    "[0, 1, 2] \<in> set (getElementsByClassName custom_doc [0, 1] ''option'')" by code_simp+
  have j: "js_less (Number (getAttribute ?E0 ''value'')) (current ?T)"
    "\<not> js_less (Number (getAttribute ?E2 ''value'')) (current ?T)" by code_simp+
  have p: "\<not> prefix [0] [1, 1, 1::nat]" by simp
  from custom_collection_fallback [OF t l b n c s e0]
    custom_collection_fallback [OF t l b n c s e2]
    custom_collection_fallback [OF t l b n c s f]
    m j p f e0
  show ?thesis by auto
qed

subsection \<open>C9\<close>

text \<open>
  Claim C9, amended. The sliders that \<open>bodyOnLoad\<close> walks are all the elements of class
  \<open>slider\<close>, in document order. On a document in which every slider contains an \<open>input\<close>
  element, \<open>bodyOnLoad\<close> adds, for each slider in that order, a listener to its first
  \<open>input\<close> and calls \<open>onSliderInput\<close> on it once: the listeners added are these controls in
  that order, and the document returned is the result of these calls in that order.
  From then on an \<open>input\<close> event on such a control has the effect of one call of
  \<open>onSliderInput\<close> on the document with the new value. A control whose container and
  markers no later call writes is synchronised when \<open>bodyOnLoad\<close> returns: one more call
  on it changes nothing.
\<close>

theorem bodyOnLoad_initialises:
  assumes "every_slider_has_input (doc pg)"
  shows "set (document_getElementsByClassName (doc pg) ''slider'') =
       {s. has_class (doc pg) ''slider'' s} \<and>
     sorted_wrt document_order (document_getElementsByClassName (doc pg) ''slider'') \<and>
     (\<exists>pg' ts.
        bodyOnLoad pg = Inr pg' \<and>
        map Some ts =
          map (first_input (doc pg)) (document_getElementsByClassName (doc pg) ''slider'') \<and>
        listeners pg' = listeners pg @ ts \<and>
        sync_all ts (doc pg) = Inr (doc pg') \<and>
        (\<forall>t s. t \<in> set ts \<longrightarrow>
           onSliderInput (set_value s t (doc pg')) t = Inr (doc (input_event pg' t s))) \<and>
        (\<forall>pre t post.
           ts = pre @ t # post \<and>
           list_all (\<lambda>u. set (writes (doc pg) u) \<inter> set (writes (doc pg) t) = {}) post \<longrightarrow>
           onSliderInput (doc pg') t = Inr (doc pg')))"
proof -
  let ?sliders = "document_getElementsByClassName (doc pg) ''slider''"
  from assms have "list_all (\<lambda>s. first_input (doc pg) s \<noteq> None) ?sliders"
    by (simp add: every_slider_has_input_def)
  from bodyOnLoad_loop_ok [OF this] obtain pg' ts where
    1: "bodyOnLoad pg = Inr pg'"
    and 2: "map Some ts = map (first_input (doc pg)) ?sliders"
    and 3: "listeners pg' = listeners pg @ ts"
    and 4: "sync_all ts (doc pg) = Inr (doc pg')"
    and sim: "similar (doc pg) (doc pg')"
    unfolding bodyOnLoad_def by blast
  have 5: "onSliderInput (set_value s t (doc pg')) t = Inr (doc (input_event pg' t s))"
    if t: "t \<in> set ts" for t s
  proof -
    from t have "Some t \<in> set (map Some ts)" by simp
    then obtain sl where "first_input (doc pg) sl = Some t" unfolding 2 by auto
    from first_input_valid [OF this] obtain e where "elem_at (doc pg) t = Some e" by blast
    from similar_elem_at [OF sim this] obtain e' where "elem_at (doc pg') t = Some e'"
      by blast
    from onSliderInput_returns [OF elem_at_set_value [OF this]] obtain d'
      where run: "onSliderInput (set_value s t (doc pg')) t = Inr d'" by blast
    from t have "t \<in> set (listeners pg')" by (simp add: 3)
    from call_listeners_once [OF this run] run show ?thesis
      by (simp add: input_event_def)
  qed
  have 6: "onSliderInput (doc pg') t = Inr (doc pg')"
    if "ts = pre @ t # post"
      "list_all (\<lambda>u. set (writes (doc pg) u) \<inter> set (writes (doc pg) t) = {}) post"
    for pre t post
    using 4 that by (auto intro: sync_all_settled)
  from 1 2 3 4 5 6 have "\<exists>pg' ts.
        bodyOnLoad pg = Inr pg' \<and>
        map Some ts = map (first_input (doc pg)) ?sliders \<and>
        listeners pg' = listeners pg @ ts \<and>
        sync_all ts (doc pg) = Inr (doc pg') \<and>
        (\<forall>t s. t \<in> set ts \<longrightarrow>
           onSliderInput (set_value s t (doc pg')) t = Inr (doc (input_event pg' t s))) \<and>
        (\<forall>pre t post.
           ts = pre @ t # post \<and>
           list_all (\<lambda>u. set (writes (doc pg) u) \<inter> set (writes (doc pg) t) = {}) post \<longrightarrow>
           onSliderInput (doc pg') t = Inr (doc pg'))"
    by blast
  then show ?thesis
    by (simp only: document_getElementsByClassName_set sorted_document_getElementsByClassName
        simp_thms)
qed

text \<open>
  The claim as the specification states it fails. A slider with no \<open>input\<close> stops
  \<open>bodyOnLoad\<close>, and the complete slider after it gets no listener and no progress value.
  And when two controls name the same \<open>datalist\<close>, the flags left by \<open>bodyOnLoad\<close> are
  those of the second control: the marker \<open>50\<close> is in the collection of the first
  control, whose value is \<open>10\<close>, and it is flagged.
\<close>

theorem marker_flags_follow_last_call:
  "bodyOnLoad \<lparr>doc = broken_doc, listeners = []\<rparr> =
     Inl (TypeError, \<lparr>doc = broken_doc, listeners = []\<rparr>) \<and>
   flag_after_load shared_doc [2, 0] = Some True \<and>
   resolve shared_doc [0, 0] = NativeList [2] \<and>
   markers shared_doc (NativeList [2]) = [ [2, 0] ] \<and>
   elem_at shared_doc [0, 0] =
     Some (input_elt ''range'' [(''min'', ''0''), (''max'', ''100''), (''list'', ''ticks'')] ''10'') \<and>
   elem_at shared_doc [2, 0] = Some (elt ''option'' [(''value'', ''50'')] []) \<and>
   \<not> js_less (Number (option_value (elt ''option'' [(''value'', ''50'')] [])))
       (current (input_elt ''range'' [(''min'', ''0''), (''max'', ''100''), (''list'', ''ticks'')] ''10''))"
  by code_simp

text \<open>
  The document with two sliders that share nothing: both controls get a listener, both
  are synchronised, and moving the first one to \<open>70\<close> runs one call on it.
\<close>

theorem bodyOnLoad_initialises_witness:
  "\<exists>pg'. bodyOnLoad \<lparr>doc = custom_doc, listeners = []\<rparr> = Inr pg' \<and>
     listeners pg' = [ [0, 0], [1, 0] ] \<and>
     sync_all [ [0, 0], [1, 0] ] custom_doc = Inr (doc pg') \<and>
     onSliderInput (set_value ''70'' [0, 0] (doc pg')) [0, 0] =
       Inr (doc (input_event pg' [0, 0] ''70'')) \<and>
     onSliderInput (doc pg') [0, 0] = Inr (doc pg') \<and>
     onSliderInput (doc pg') [1, 0] = Inr (doc pg')"
proof -
  have s: "every_slider_has_input (doc \<lparr>doc = custom_doc, listeners = []\<rparr>)" by code_simp
  have f: "map (first_input custom_doc) (document_getElementsByClassName custom_doc ''slider'')
     = [Some [0, 0], Some [1, 0] ]" by code_simp
  have i: "set (writes custom_doc [1, 0]) \<inter> set (writes custom_doc [0, 0]) = {}" by code_simp
  have d: "doc \<lparr>doc = custom_doc, listeners = []\<rparr> = custom_doc"
    and l: "listeners \<lparr>doc = custom_doc, listeners = []\<rparr> = []" by simp_all
  note th = bodyOnLoad_initialises [OF s, unfolded d l f append_Nil, THEN conjunct2,
      THEN conjunct2]
  from th obtain pg' where "\<exists>ts. bodyOnLoad \<lparr>doc = custom_doc, listeners = []\<rparr> = Inr pg' \<and>
     map Some ts = [Some [0, 0], Some [1, 0] ] \<and>
     listeners pg' = ts \<and>
     sync_all ts custom_doc = Inr (doc pg') \<and>
     (\<forall>t s. t \<in> set ts \<longrightarrow>
        onSliderInput (set_value s t (doc pg')) t = Inr (doc (input_event pg' t s))) \<and>
     (\<forall>pre t post.
        ts = pre @ t # post \<and>
        list_all (\<lambda>u. set (writes custom_doc u) \<inter> set (writes custom_doc t) = {}) post \<longrightarrow>
        onSliderInput (doc pg') t = Inr (doc pg'))" ..
  then obtain ts where A: "bodyOnLoad \<lparr>doc = custom_doc, listeners = []\<rparr> = Inr pg' \<and>
     map Some ts = [Some [0, 0], Some [1, 0] ] \<and>
     listeners pg' = ts \<and>
     sync_all ts custom_doc = Inr (doc pg') \<and>
     (\<forall>t s. t \<in> set ts \<longrightarrow>
        onSliderInput (set_value s t (doc pg')) t = Inr (doc (input_event pg' t s))) \<and>
     (\<forall>pre t post.
        ts = pre @ t # post \<and>
        list_all (\<lambda>u. set (writes custom_doc u) \<inter> set (writes custom_doc t) = {}) post \<longrightarrow>
        onSliderInput (doc pg') t = Inr (doc pg'))" ..
  from A have 1: "bodyOnLoad \<lparr>doc = custom_doc, listeners = []\<rparr> = Inr pg'"
    by (elim conjE) assumption
  from A have 2: "map Some ts = [Some [0, 0], Some [1, 0] ]" by (elim conjE) assumption
  from A have 3: "listeners pg' = ts" by (elim conjE) assumption
  from A have 4: "sync_all ts custom_doc = Inr (doc pg')" by (elim conjE) assumption
  from A have ev: "\<forall>t s. t \<in> set ts \<longrightarrow>
        onSliderInput (set_value s t (doc pg')) t = Inr (doc (input_event pg' t s))"
    by (elim conjE) assumption
  from A have "\<forall>pre t post.
        ts = pre @ t # post \<and>
        list_all (\<lambda>u. set (writes custom_doc u) \<inter> set (writes custom_doc t) = {}) post \<longrightarrow>
        onSliderInput (doc pg') t = Inr (doc pg')" by (elim conjE) assumption
  then have 5: "onSliderInput (doc pg') t = Inr (doc pg')"
    if "ts = pre @ t # post"
      "list_all (\<lambda>u. set (writes custom_doc u) \<inter> set (writes custom_doc t) = {}) post"
    for pre t post
    using that by (elim allE [of _ pre] allE [of _ t] allE [of _ post]) (erule mp, rule conjI)
  from 2 have ts: "ts = [ [0, 0], [1, 0] ]" by (simp add: map_eq_Cons_conv)
  have a: "onSliderInput (doc pg') [0, 0] = Inr (doc pg')"
    by (rule 5 [of "[]" _ "[ [1, 0] ]"]) (use i in \<open>simp_all add: ts\<close>)
  have b: "onSliderInput (doc pg') [1, 0] = Inr (doc pg')"
    by (rule 5 [of "[ [0, 0] ]" _ "[]"]) (simp_all add: ts)
  from ev have c: "onSliderInput (set_value ''70'' [0, 0] (doc pg')) [0, 0] =
       Inr (doc (input_event pg' [0, 0] ''70''))"
    by (simp add: ts)
  from 1 3 4 a b c show ?thesis unfolding ts by blast
qed

subsection \<open>C10\<close>

text \<open>
  Claim C10. After a call, a marker of the resolved collection whose position converts
  to \<open>NaN\<close> does not carry the class \<open>lower\<close>, whatever the current value is.
\<close>

theorem nan_marker_unflagged:
  assumes "elem_at d t = Some target" and "p \<in> set (markers d (resolve d t))"
    and "elem_at d p = Some e" and "Number (position (resolve d t) e) = NaN"
  shows "\<exists>d' e'. onSliderInput d t = Inr d' \<and> elem_at d' p = Some e' \<and>
     ''lower'' \<notin> set (classes e')"
proof -
  from onSliderInput_returns [OF assms(1)] obtain d' where run: "onSliderInput d t = Inr d'"
    by blast
  show ?thesis
    using assms(2-4)
    by (simp add: run elem_at_onSliderInput [OF assms(1) run] classes_sync_elem)
qed

text \<open>
  The marker with the position \<open>abc\<close>, which carried the class, loses it.
\<close>

theorem nan_marker_unflagged_witness:
  "\<exists>d' e'. onSliderInput custom_doc [0, 0] = Inr d' \<and> elem_at d' [0, 1, 2] = Some e' \<and>
     ''lower'' \<notin> set (classes e')"
proof -
  let ?T = "range_control ''50'' ''0'' ''100''"
  let ?E = "elt ''div'' [(''value'', ''abc'')] [''option'', ''lower'']"
  have t: "elem_at custom_doc [0, 0] = Some ?T" by code_simp
  have m: "[0, 1, 2] \<in> set (markers custom_doc (resolve custom_doc [0, 0]))" by code_simp
  have e: "elem_at custom_doc [0, 1, 2] = Some ?E" by code_simp
  have n: "Number (position (resolve custom_doc [0, 0]) ?E) = NaN" by code_simp
  from nan_marker_unflagged [OF t m e n] show ?thesis .
qed

end
